theory Spec2Isabelle
  imports Complex_Main "HOL-Library.Multiset" "HOL-Library.Sublist"
begin

section \<open>Data model\<close>

text \<open>
  The objects of \<^verbatim>\<open>src/algorithms/tableAssignment.js\<close>.  A JavaScript property
  that may be \<^verbatim>\<open>undefined\<close> is an \<open>option\<close> (\<open>None\<close> is \<^verbatim>\<open>undefined\<close>).
  Coordinates are exact rationals; the claims proved below do not depend on how a
  coordinate is rounded.
\<close>

type_synonym jsstring = "string option"

record location =
  latitude :: rat
  longitude :: rat
  accuracy :: rat

record user =
  user_id :: jsstring
  user_displayName :: jsstring
  user_name :: jsstring
  user_fullName :: jsstring
  user_photoURL :: jsstring
  user_gender :: jsstring
  user_preferences :: "(string \<times> string) list option"
  user_location :: "location option"

record member =
  member_id :: jsstring
  member_name :: jsstring
  member_fullName :: jsstring
  member_photoURL :: jsstring
  member_gender :: jsstring
  member_preferences :: "(string \<times> string) list option"

record table =
  table_id :: string
  table_name :: string
  members :: "member list"

text \<open>
  The settings record of the store holds both fields, so the defaults of the
  destructuring at line 14 do not apply.  The data model bounds \<^verbatim>\<open>maxPeoplePerTable\<close>
  from below by 2 (the settings form has \<^verbatim>\<open>min="2"\<close>); the type here is any integer,
  and each result below says which bound it needs.
\<close>

record settings =
  maxPeoplePerTable :: int
  considerLocation :: bool

section \<open>JavaScript primitives\<close>

text \<open>Truthiness of a string-valued property: \<^verbatim>\<open>undefined\<close> and \<^verbatim>\<open>''\<close> are falsy.\<close>

definition truthy :: "jsstring \<Rightarrow> bool" where
  "truthy s = (case s of None \<Rightarrow> False | Some v \<Rightarrow> v \<noteq> [])"

text \<open>\<^verbatim>\<open>a || b\<close> on string-valued properties.\<close>

definition js_or :: "jsstring \<Rightarrow> jsstring \<Rightarrow> jsstring" where
  "js_or a b = (if truthy a then a else b)"

definition digit_char :: "nat \<Rightarrow> char" where
  "digit_char d = ''0123456789'' ! d"

text \<open>The decimal numeral a template literal prints for a non-negative integer.\<close>

fun string_of_nat :: "nat \<Rightarrow> string" where
  "string_of_nat n =
     (if n < 10 then [digit_char n] else string_of_nat (n div 10) @ [digit_char (n mod 10)])"

declare string_of_nat.simps [simp del]

definition string_of_int :: "int \<Rightarrow> string" where
  "string_of_int i = (if i < 0 then CHR ''-'' # string_of_nat (nat (- i)) else string_of_nat (nat i))"

text \<open>\<^verbatim>\<open>Math.round\<close>: the nearest integer, a tie going up.\<close>

definition math_round :: "rat \<Rightarrow> int" where
  "math_round x = \<lfloor>x + 1 / 2\<rfloor>"

section \<open>assignUsersToTables\<close>

text \<open>The member snapshot pushed at lines 63--70.\<close>

definition snapshot :: "user \<Rightarrow> member" where
  "snapshot u =
     \<lparr> member_id = user_id u,
       member_name = js_or (user_displayName u) (user_name u),
       member_fullName = user_fullName u,
       member_photoURL = user_photoURL u,
       member_gender = user_gender u,
       member_preferences = user_preferences u \<rparr>"

text \<open>
  The inner loop of \<^verbatim>\<open>assignRoundRobin\<close> (lines 45--50).  \<^verbatim>\<open>targetTable\<close> is a
  reference into \<^verbatim>\<open>result\<close>; the model keeps the index of that element.
\<close>

fun scanTables :: "table list \<Rightarrow> nat \<Rightarrow> nat option \<Rightarrow> int \<Rightarrow> nat option \<times> int" where
  "scanTables [] i targetTable minMembers = (targetTable, minMembers)"
| "scanTables (t # ts) i targetTable minMembers =
     (if int (length (members t)) < minMembers
      then scanTables ts (Suc i) (Some i) (int (length (members t)))
      else scanTables ts (Suc i) targetTable minMembers)"

text \<open>The table created at lines 54--58, already holding the pushed member.\<close>

definition newTable :: "nat \<Rightarrow> member list \<Rightarrow> table" where
  "newTable k ms =
     \<lparr> table_id = ''table-'' @ string_of_nat k,
       table_name = ''Table '' @ string_of_nat k,
       members = ms \<rparr>"

definition pushMember :: "member \<Rightarrow> table \<Rightarrow> table" where
  "pushMember m t = t\<lparr>members := members t @ [m]\<rparr>"

text \<open>One iteration of the outer loop (lines 40--71).\<close>

definition placeUser :: "int \<Rightarrow> table list \<Rightarrow> user \<Rightarrow> table list" where
  "placeUser cap result u =
     (case fst (scanTables result 0 None cap) of
        None \<Rightarrow> result @ [newTable (length result + 1) [snapshot u]]
      | Some i \<Rightarrow>
          if int (length (members (result ! i))) \<ge> cap
          then result @ [newTable (length result + 1) [snapshot u]]
          else result[i := pushMember (snapshot u) (result ! i)])"

fun assignRoundRobin :: "user list \<Rightarrow> table list \<Rightarrow> int \<Rightarrow> table list" where
  "assignRoundRobin [] result cap = result"
| "assignRoundRobin (u # us) result cap = assignRoundRobin us (placeUser cap result u) cap"

text \<open>The bucket key of lines 84--86.\<close>

definition locationKey :: "user \<Rightarrow> string" where
  "locationKey u =
     (case user_location u of
        None \<Rightarrow> ''unknown''
      | Some l \<Rightarrow> string_of_int (math_round (latitude l * 100)) @ ''-'' @
                  string_of_int (math_round (longitude l * 100)))"

text \<open>
  \<^verbatim>\<open>locationGroups\<close> is an object used as a dictionary.  No key is an array index
  (each is \<^verbatim>\<open>unknown\<close> or contains a hyphen), so \<^verbatim>\<open>Object.entries\<close> lists the
  buckets in the order of their first insertion: an association list.
\<close>

fun addToGroup :: "string \<Rightarrow> user \<Rightarrow> (string \<times> user list) list \<Rightarrow> (string \<times> user list) list" where
  "addToGroup k u [] = [(k, [u])]"
| "addToGroup k u ((k', us) # gs) =
     (if k' = k then (k', us @ [u]) # gs else (k', us) # addToGroup k u gs)"

fun groupByLocation :: "user list \<Rightarrow> (string \<times> user list) list \<Rightarrow> (string \<times> user list) list" where
  "groupByLocation [] locationGroups = locationGroups"
| "groupByLocation (u # us) locationGroups =
     groupByLocation us (addToGroup (locationKey u) u locationGroups)"

fun fillGroups :: "(string \<times> user list) list \<Rightarrow> table list \<Rightarrow> int \<Rightarrow> table list" where
  "fillGroups [] result cap = result"
| "fillGroups ((k, locationUsers) # gs) result cap =
     fillGroups gs (result @ assignRoundRobin locationUsers [] cap) cap"

definition assignByLocation :: "user list \<Rightarrow> table list \<Rightarrow> int \<Rightarrow> table list" where
  "assignByLocation users tables cap = fillGroups (groupByLocation users []) tables cap"

text \<open>\<^verbatim>\<open>allUsers\<close> of \<^verbatim>\<open>shuffleTables\<close>: every member of every table, in order.\<close>

definition allMembers :: "table list \<Rightarrow> member list" where
  "allMembers tables = concat (map members tables)"

definition assignedUserIds :: "table list \<Rightarrow> jsstring set" where
  "assignedUserIds tables = set (map member_id (allMembers tables))"

definition unassignedUsers :: "user list \<Rightarrow> table list \<Rightarrow> user list" where
  "unassignedUsers users tables = filter (\<lambda>u. user_id u \<notin> assignedUserIds tables) users"

definition assignUsersToTables :: "user list \<Rightarrow> settings \<Rightarrow> table list \<Rightarrow> table list" where
  "assignUsersToTables users s existingTables =
     (if considerLocation s
      then assignByLocation (unassignedUsers users existingTables) existingTables (maxPeoplePerTable s)
      else assignRoundRobin (unassignedUsers users existingTables) existingTables (maxPeoplePerTable s))"

section \<open>shuffleTables\<close>

text \<open>
  \<^verbatim>\<open>Math.random()\<close> returns a number in \<open>[0, 1)\<close>.  The random choices of a run are a
  sequence \<open>rnd\<close>; the \<open>k\<close>-th call returns the fractional part of \<open>rnd k\<close>, so every
  sequence of numbers in \<open>[0, 1)\<close> is a possible run and no other value is drawn.
\<close>

definition math_random :: "(nat \<Rightarrow> rat) \<Rightarrow> nat \<Rightarrow> rat" where
  "math_random rnd k = frac (rnd k)"

text \<open>
  The loop of lines 119--122, counting \<open>i\<close> down to 1; \<open>calls\<close> counts the draws made
  so far.  The loop starts at \<open>i = length - 1\<close> and draws \<open>j \<le> i\<close>, so both reads of
  the swap are in range.
\<close>

fun fisherYates :: "(nat \<Rightarrow> rat) \<Rightarrow> nat \<Rightarrow> nat \<Rightarrow> member list \<Rightarrow> member list" where
  "fisherYates rnd calls 0 shuffledUsers = shuffledUsers"
| "fisherYates rnd calls (Suc i') shuffledUsers =
     (let i = Suc i';
          j = nat \<lfloor>math_random rnd calls * (of_nat i + 1)\<rfloor>
      in fisherYates rnd (Suc calls) i' (shuffledUsers[i := shuffledUsers ! j, j := shuffledUsers ! i]))"

text \<open>\<^verbatim>\<open>Array.prototype.slice(start, end)\<close>: a negative index counts from the end.\<close>

definition js_slice :: "'a list \<Rightarrow> int \<Rightarrow> int \<Rightarrow> 'a list" where
  "js_slice xs start end =
     (let len = int (length xs);
          k = (if start < 0 then max (len + start) 0 else min start len);
          final = (if end < 0 then max (len + end) 0 else min end len)
      in take (nat (final - k)) (drop (nat k) xs))"

text \<open>
  The loop of lines 126--133.  With \<open>maxPeoplePerTable \<le> 0\<close> and a member to seat it
  never ends: not returning is the value \<open>None\<close>.
\<close>

partial_function (option) redistribute :: "member list \<Rightarrow> int \<Rightarrow> int \<Rightarrow> table list \<Rightarrow> table list option" where
  "redistribute shuffledUsers cap i newTables =
     (if i < int (length shuffledUsers)
      then redistribute shuffledUsers cap (i + cap)
             (newTables @ [newTable (length newTables + 1) (js_slice shuffledUsers i (i + cap))])
      else Some newTables)"

declare redistribute.simps [code]

text \<open>
  Lines 112--122.  For an empty list the loop starts at \<open>i = -1\<close> and does not run; the
  truncated difference \<open>0 - 1 = 0\<close> gives the same.
\<close>

definition shuffleUsers :: "(nat \<Rightarrow> rat) \<Rightarrow> table list \<Rightarrow> member list" where
  "shuffleUsers rnd tbls = fisherYates rnd 0 (length (allMembers tbls) - 1) (allMembers tbls)"

definition shuffleTables :: "(nat \<Rightarrow> rat) \<Rightarrow> table list \<Rightarrow> int \<Rightarrow> table list option" where
  "shuffleTables rnd tbls cap = redistribute (shuffleUsers rnd tbls) cap 0 []"

section \<open>moveUserBetweenTables\<close>

text \<open>
  \<^verbatim>\<open>Array.prototype.findIndex\<close>; \<open>None\<close> is its \<open>-1\<close>.  \<^verbatim>\<open>Array.prototype.find\<close>
  returns a reference to the element found, which the model keeps as this index.
\<close>

fun findIndex :: "('a \<Rightarrow> bool) \<Rightarrow> 'a list \<Rightarrow> nat option" where
  "findIndex P [] = None"
| "findIndex P (x # xs) = (if P x then Some 0 else map_option Suc (findIndex P xs))"

text \<open>\<^verbatim>\<open>splice(userIndex, 1)\<close>.\<close>

definition removeAt :: "nat \<Rightarrow> 'a list \<Rightarrow> 'a list" where
  "removeAt i xs = take i xs @ drop (Suc i) xs"

record moveResult =
  success :: bool
  tables :: "table list"
  message :: string

definition copyTable :: "table \<Rightarrow> table" where
  "copyTable t = t\<lparr>members := members t\<rparr>"

definition moveUserBetweenTables ::
  "table list \<Rightarrow> jsstring \<Rightarrow> string \<Rightarrow> string \<Rightarrow> int \<Rightarrow> moveResult" where
  "moveUserBetweenTables tbls userId fromTableId toTableId cap =
     (let result = map copyTable tbls in
      case (findIndex (\<lambda>t. table_id t = fromTableId) result,
            findIndex (\<lambda>t. table_id t = toTableId) result) of
        (Some fromTable, Some toTable) \<Rightarrow>
          if int (length (members (result ! toTable))) \<ge> cap
          then \<lparr>success = False, tables = result, message = ''Destination table is full''\<rparr>
          else (case findIndex (\<lambda>m. member_id m = userId) (members (result ! fromTable)) of
                  None \<Rightarrow>
                    \<lparr>success = False, tables = result, message = ''User not found in source table''\<rparr>
                | Some userIndex \<Rightarrow>
                    let user = members (result ! fromTable) ! userIndex;
                        result1 = result[fromTable := (result ! fromTable)
                                    \<lparr>members := removeAt userIndex (members (result ! fromTable))\<rparr>];
                        result2 = result1[toTable := pushMember user (result1 ! toTable)]
                    in \<lparr>success = True, tables = result2, message = ''User moved successfully''\<rparr>)
      | _ \<Rightarrow> \<lparr>success = False, tables = result, message = ''Table not found''\<rparr>)"

section \<open>moveUserBetweenTables on a store\<close>

text \<open>
  The same function on a store, to tell a copy from a reference.  The table list, each
  table object and each \<^verbatim>\<open>members\<close> array is a cell; a reference is the index of a
  cell, and allocation appends one.  Member snapshots are never written to by the
  function and stay values.  \<open>None\<close> is the \<^verbatim>\<open>TypeError\<close> of reading a property of a
  value that is not the object expected.
\<close>

datatype cell =
    TableArray "nat list"
  | TableObject string string nat
  | MemberArray "member list"

type_synonym heap = "cell list"

definition alloc :: "heap \<Rightarrow> cell \<Rightarrow> heap \<times> nat" where
  "alloc h c = (h @ [c], length h)"

definition tableArrayAt :: "heap \<Rightarrow> nat \<Rightarrow> nat list option" where
  "tableArrayAt h r =
     (if r < length h then (case h ! r of TableArray rs \<Rightarrow> Some rs | _ \<Rightarrow> None) else None)"

definition tableObjectAt :: "heap \<Rightarrow> nat \<Rightarrow> (string \<times> string \<times> nat) option" where
  "tableObjectAt h r =
     (if r < length h then (case h ! r of TableObject tid nm mref \<Rightarrow> Some (tid, nm, mref) | _ \<Rightarrow> None)
      else None)"

definition memberArrayAt :: "heap \<Rightarrow> nat \<Rightarrow> member list option" where
  "memberArrayAt h r =
     (if r < length h then (case h ! r of MemberArray ms \<Rightarrow> Some ms | _ \<Rightarrow> None) else None)"

text \<open>\<^verbatim>\<open>table.members\<close>: the reference held by the table object, and the array there.\<close>

definition membersOf :: "heap \<Rightarrow> nat \<Rightarrow> (nat \<times> member list) option" where
  "membersOf h r =
     (case tableObjectAt h r of
        None \<Rightarrow> None
      | Some (tid, nm, mref) \<Rightarrow> map_option (Pair mref) (memberArrayAt h mref))"

text \<open>
  Line 148: \<^verbatim>\<open>tables.map(table => ({ ...table, members: [...table.members] }))\<close> allocates
  a new members array and a new table object for every table.
\<close>

fun copyTables :: "heap \<Rightarrow> nat list \<Rightarrow> (heap \<times> nat list) option" where
  "copyTables h [] = Some (h, [])"
| "copyTables h (r # rs) =
     (case tableObjectAt h r of
        None \<Rightarrow> None
      | Some (tid, nm, mref) \<Rightarrow>
          (case memberArrayAt h mref of
             None \<Rightarrow> None
           | Some ms \<Rightarrow>
               let (h1, mref') = alloc h (MemberArray ms);
                   (h2, r') = alloc h1 (TableObject tid nm mref')
               in (case copyTables h2 rs of
                     None \<Rightarrow> None
                   | Some (h3, rs') \<Rightarrow> Some (h3, r' # rs'))))"

record heapMoveResult =
  h_success :: bool
  h_tables :: nat
  h_message :: string

definition moveUserBetweenTables_heap ::
  "heap \<Rightarrow> nat \<Rightarrow> jsstring \<Rightarrow> string \<Rightarrow> string \<Rightarrow> int \<Rightarrow> (heap \<times> heapMoveResult) option" where
  "moveUserBetweenTables_heap h tablesRef userId fromTableId toTableId cap =
     (case tableArrayAt h tablesRef of
        None \<Rightarrow> None
      | Some rs \<Rightarrow>
     (case copyTables h rs of
        None \<Rightarrow> None
      | Some (h1, rs') \<Rightarrow>
          let (h2, result) = alloc h1 (TableArray rs');
              fromTable = find (\<lambda>r. map_option fst (tableObjectAt h2 r) = Some fromTableId) rs';
              toTable = find (\<lambda>r. map_option fst (tableObjectAt h2 r) = Some toTableId) rs'
          in (case (fromTable, toTable) of
                (Some fromRef, Some toRef) \<Rightarrow>
                  (case membersOf h2 toRef of
                     None \<Rightarrow> None
                   | Some (toMembers, toList) \<Rightarrow>
                       if int (length toList) \<ge> cap
                       then Some (h2, \<lparr>h_success = False, h_tables = result,
                                       h_message = ''Destination table is full''\<rparr>)
                       else
                        (case membersOf h2 fromRef of
                           None \<Rightarrow> None
                         | Some (fromMembers, fromList) \<Rightarrow>
                            (case findIndex (\<lambda>m. member_id m = userId) fromList of
                               None \<Rightarrow> Some (h2, \<lparr>h_success = False, h_tables = result,
                                                   h_message = ''User not found in source table''\<rparr>)
                             | Some userIndex \<Rightarrow>
                                 let user = fromList ! userIndex;
                                     h3 = h2[fromMembers := MemberArray (removeAt userIndex fromList)]
                                 in (case memberArrayAt h3 toMembers of
                                       None \<Rightarrow> None
                                     | Some pushed \<Rightarrow>
                                         Some (h3[toMembers := MemberArray (pushed @ [user])],
                                               \<lparr>h_success = True, h_tables = result,
                                                h_message = ''User moved successfully''\<rparr>)))))
              | _ \<Rightarrow> Some (h2, \<lparr>h_success = False, h_tables = result, h_message = ''Table not found''\<rparr>))))"

text \<open>The table list that a reference denotes in a store.\<close>

definition readTable :: "heap \<Rightarrow> nat \<Rightarrow> table option" where
  "readTable h r =
     (case tableObjectAt h r of
        None \<Rightarrow> None
      | Some (tid, nm, mref) \<Rightarrow>
          (case memberArrayAt h mref of
             None \<Rightarrow> None
           | Some ms \<Rightarrow> Some \<lparr>table_id = tid, table_name = nm, members = ms\<rparr>))"

definition readTables :: "heap \<Rightarrow> nat \<Rightarrow> table list option" where
  "readTables h r = (case tableArrayAt h r of None \<Rightarrow> None | Some rs \<Rightarrow> those (map (readTable h) rs))"

text \<open>
  The cells that copying the tables \<open>ts\<close> appends to a store of \<open>n\<close> cells, and the
  references to the new table objects.
\<close>

fun copyCells :: "nat \<Rightarrow> table list \<Rightarrow> cell list" where
  "copyCells n [] = []"
| "copyCells n (t # ts) =
     MemberArray (members t) # TableObject (table_id t) (table_name t) n # copyCells (n + 2) ts"

fun copyRefs :: "nat \<Rightarrow> table list \<Rightarrow> nat list" where
  "copyRefs n [] = []"
| "copyRefs n (t # ts) = (n + 1) # copyRefs (n + 2) ts"

section \<open>getTableDistributionStats\<close>

text \<open>
  JavaScript numbers, as far as this function needs them: a finite value, the two
  infinities and \<^verbatim>\<open>NaN\<close>.  Finite values are exact rationals (a double is exact on the
  integers below \<open>2^53\<close>).  The function is called with a list length and the capacity of
  the settings, so its arguments are natural numbers and no negative zero arises.
\<close>

datatype jsnum = Fin rat | PosInf | NegInf | NaN

fun js_div :: "jsnum \<Rightarrow> jsnum \<Rightarrow> jsnum" where
  "js_div NaN y = NaN"
| "js_div x NaN = NaN"
| "js_div (Fin a) (Fin b) =
     (if b \<noteq> 0 then Fin (a / b) else if a = 0 then NaN else if 0 < a then PosInf else NegInf)"
| "js_div (Fin a) PosInf = Fin 0"
| "js_div (Fin a) NegInf = Fin 0"
| "js_div PosInf (Fin b) = (if 0 \<le> b then PosInf else NegInf)"
| "js_div NegInf (Fin b) = (if 0 \<le> b then NegInf else PosInf)"
| "js_div PosInf y = NaN"
| "js_div NegInf y = NaN"

definition js_trunc :: "rat \<Rightarrow> int" where
  "js_trunc q = (if 0 \<le> q then \<lfloor>q\<rfloor> else \<lceil>q\<rceil>)"

text \<open>The remainder operator \<^verbatim>\<open>%\<close>: the result has the sign of the dividend.\<close>

fun js_mod :: "jsnum \<Rightarrow> jsnum \<Rightarrow> jsnum" where
  "js_mod (Fin a) (Fin b) = (if b = 0 then NaN else Fin (a - b * of_int (js_trunc (a / b))))"
| "js_mod (Fin a) PosInf = Fin a"
| "js_mod (Fin a) NegInf = Fin a"
| "js_mod x y = NaN"

fun js_sub :: "jsnum \<Rightarrow> jsnum \<Rightarrow> jsnum" where
  "js_sub NaN y = NaN"
| "js_sub x NaN = NaN"
| "js_sub (Fin a) (Fin b) = Fin (a - b)"
| "js_sub (Fin a) PosInf = NegInf"
| "js_sub (Fin a) NegInf = PosInf"
| "js_sub PosInf PosInf = NaN"
| "js_sub PosInf y = PosInf"
| "js_sub NegInf NegInf = NaN"
| "js_sub NegInf y = NegInf"

fun math_ceil :: "jsnum \<Rightarrow> jsnum" where
  "math_ceil (Fin a) = Fin (of_int \<lceil>a\<rceil>)"
| "math_ceil x = x"

fun math_floor :: "jsnum \<Rightarrow> jsnum" where
  "math_floor (Fin a) = Fin (of_int \<lfloor>a\<rfloor>)"
| "math_floor x = x"

record stats =
  totalTables :: jsnum
  averagePeoplePerTable :: jsnum
  tablesWithExtraPerson :: jsnum
  tablesWithNormalCount :: jsnum

definition getTableDistributionStats :: "nat \<Rightarrow> nat \<Rightarrow> stats" where
  "getTableDistributionStats totalUsers cap =
     (let minTables = math_ceil (js_div (Fin (of_nat totalUsers)) (Fin (of_nat cap)));
          perfectDistribution = math_floor (js_div (Fin (of_nat totalUsers)) minTables);
          tablesWithExtra = js_mod (Fin (of_nat totalUsers)) minTables
      in \<lparr> totalTables = minTables,
           averagePeoplePerTable = perfectDistribution,
           tablesWithExtraPerson = tablesWithExtra,
           tablesWithNormalCount = js_sub minTables tablesWithExtra \<rparr>)"

section \<open>removeUserFromTable and logout\<close>

text \<open>
  \<^verbatim>\<open>src/contexts/AuthContext.js\<close>, lines 75--121.  The document store and the
  identity provider are external services: \<open>services\<close> says which of their calls
  reject, \<open>world\<close> holds the \<^verbatim>\<open>tables\<close> collection, the session and the calls made
  so far.  A call returns the raised error, if any, with the world it leaves behind.
\<close>

datatype error = StoreFailure | AuthFailure

datatype call = DeleteDoc string | SetDoc string table | SignOut

record services =
  deleteDocFails :: "string \<Rightarrow> bool"
  setDocFails :: "string \<Rightarrow> table \<Rightarrow> bool"
  signOutFails :: bool

record world =
  docs :: "string \<rightharpoonup> table"
  signedIn :: bool
  calls :: "call list"

definition deleteDoc :: "services \<Rightarrow> string \<Rightarrow> world \<Rightarrow> error option \<times> world" where
  "deleteDoc sv tid w =
     (if deleteDocFails sv tid
      then (Some StoreFailure, w\<lparr>calls := calls w @ [DeleteDoc tid]\<rparr>)
      else (None, w\<lparr>docs := (docs w)(tid := None), calls := calls w @ [DeleteDoc tid]\<rparr>))"

definition setDoc :: "services \<Rightarrow> string \<Rightarrow> table \<Rightarrow> world \<Rightarrow> error option \<times> world" where
  "setDoc sv tid t w =
     (if setDocFails sv tid t
      then (Some StoreFailure, w\<lparr>calls := calls w @ [SetDoc tid t]\<rparr>)
      else (None, w\<lparr>docs := (docs w)(tid \<mapsto> t), calls := calls w @ [SetDoc tid t]\<rparr>))"

definition signOut :: "services \<Rightarrow> world \<Rightarrow> error option \<times> world" where
  "signOut sv w =
     (if signOutFails sv
      then (Some AuthFailure, w\<lparr>calls := calls w @ [SignOut]\<rparr>)
      else (None, w\<lparr>signedIn := False, calls := calls w @ [SignOut]\<rparr>))"

text \<open>
  \<open>tbls\<close> is the client's current snapshot of the collection (the React state
  \<^verbatim>\<open>tables\<close>).  \<^verbatim>\<open>table.members\<close> is an array, which is truthy, so the guard of line
  93 is the \<^verbatim>\<open>some\<close> test alone.  The \<^verbatim>\<open>catch\<close> of lines 117--120 logs and returns.
\<close>

definition removeUserFromTable ::
  "services \<Rightarrow> table list \<Rightarrow> jsstring \<Rightarrow> world \<Rightarrow> error option \<times> world" where
  "removeUserFromTable sv tbls userId w =
     (let attempt =
            (case find (\<lambda>t. \<exists>m \<in> set (members t). member_id m = userId) tbls of
               None \<Rightarrow> (None, w)
             | Some userTable \<Rightarrow>
                 let updatedMembers = filter (\<lambda>m. member_id m \<noteq> userId) (members userTable) in
                 if length updatedMembers = 0
                 then deleteDoc sv (table_id userTable) w
                 else setDoc sv (table_id userTable) (userTable\<lparr>members := updatedMembers\<rparr>) w)
      in (None, snd attempt))"

text \<open>\<^verbatim>\<open>logout\<close>: its \<^verbatim>\<open>catch\<close> logs and rethrows.\<close>

definition logout :: "services \<Rightarrow> table list \<Rightarrow> string option \<Rightarrow> world \<Rightarrow> error option \<times> world" where
  "logout sv tbls currentUser w =
     (let cleanup = (case currentUser of
                       None \<Rightarrow> (None, w)
                     | Some uid \<Rightarrow> removeUserFromTable sv tbls (Some uid) w)
      in case fst cleanup of
           Some e \<Rightarrow> (Some e, snd cleanup)
         | None \<Rightarrow> signOut sv (snd cleanup))"

section \<open>Auxiliary functions for stating the results\<close>

text \<open>A list cut into consecutive pieces of \<open>c\<close> elements, the last one possibly shorter.\<close>

fun chunks :: "nat \<Rightarrow> 'a list \<Rightarrow> 'a list list" where
  "chunks c xs = (if c = 0 \<or> xs = [] then [] else take c xs # chunks c (drop c xs))"

declare chunks.simps [simp del]

fun numberTables :: "nat \<Rightarrow> member list list \<Rightarrow> table list" where
  "numberTables k [] = []"
| "numberTables k (ms # mss) = newTable (k + 1) ms # numberTables (Suc k) mss"




text \<open>No user id in the member lists of two tables.\<close>

definition memberIds :: "table \<Rightarrow> jsstring set" where
  "memberIds t = set (map member_id (members t))"

definition noDoubleSeating :: "table list \<Rightarrow> bool" where
  "noDoubleSeating ts = sorted_wrt (\<lambda>a b. memberIds a \<inter> memberIds b = {}) ts"

section \<open>Example data\<close>

text \<open>The user \<^verbatim>\<open>{id: i}\<close>, the user record with no id, a user with a location.\<close>

definition userWithId :: "string \<Rightarrow> user" where
  "userWithId i =
     \<lparr> user_id = Some i, user_displayName = None, user_name = None, user_fullName = None,
       user_photoURL = None, user_gender = None, user_preferences = None, user_location = None \<rparr>"

definition userWithoutId :: user where
  "userWithoutId = (userWithId [])\<lparr>user_id := None\<rparr>"

definition userAt :: "string \<Rightarrow> rat \<Rightarrow> rat \<Rightarrow> user" where
  "userAt i lat lon =
     (userWithId i)\<lparr>user_location := Some \<lparr>latitude = lat, longitude = lon, accuracy = 10\<rparr>\<rparr>"

definition memberWithId :: "string \<Rightarrow> member" where
  "memberWithId i =
     \<lparr> member_id = Some i, member_name = None, member_fullName = None,
       member_photoURL = None, member_gender = None, member_preferences = None \<rparr>"

definition tableOf :: "string \<Rightarrow> string list \<Rightarrow> table" where
  "tableOf tid ids = \<lparr>table_id = tid, table_name = tid, members = map memberWithId ids\<rparr>"

text \<open>
  A store for the move: table \<^verbatim>\<open>t1\<close> with \<^verbatim>\<open>u1\<close>, \<^verbatim>\<open>u2\<close>, \<^verbatim>\<open>u3\<close> and table
  \<^verbatim>\<open>t2\<close> with \<^verbatim>\<open>u4\<close>; the table list is the cell 4.
\<close>

definition exampleHeap :: heap where
  "exampleHeap =
     [MemberArray [memberWithId ''u1'', memberWithId ''u2'', memberWithId ''u3''],
      TableObject ''t1'' ''t1'' 0,
      MemberArray [memberWithId ''u4''], TableObject ''t2'' ''t2'' 2,
      TableArray [1, 3]]"

section \<open>Properties of the round-robin fill\<close>

lemma scan_cases:
  "scanTables ts k tgt m = (tgt', m') \<Longrightarrow>
     ((\<forall>t\<in>set ts. \<not> int (length (members t)) < m) \<and> tgt' = tgt \<and> m' = m)
   \<or> (\<exists>i<length ts. tgt' = Some (k + i) \<and> m' = int (length (members (ts ! i))) \<and> m' < m
        \<and> (\<forall>j<length ts. m' \<le> int (length (members (ts ! j))))
        \<and> (\<forall>j<i. m' < int (length (members (ts ! j)))))"
proof (induction ts arbitrary: k tgt m)
  case Nil
  then show ?case by simp
next
  case (Cons t ts)
  show ?case
  proof (cases "int (length (members t)) < m")
    case True
    with Cons.prems have rec: "scanTables ts (Suc k) (Some k) (int (length (members t))) = (tgt', m')"
      by simp
    from Cons.IH[OF rec] show ?thesis
    proof
      assume a: "(\<forall>t'\<in>set ts. \<not> int (length (members t')) < int (length (members t))) \<and> tgt' = Some k \<and> m' = int (length (members t))"
      have "\<forall>j<length (t # ts). m' \<le> int (length (members ((t # ts) ! j)))"
      proof (intro allI impI)
        fix j assume "j < length (t # ts)"
        then show "m' \<le> int (length (members ((t # ts) ! j)))"
          using a by (cases j) (auto simp: not_less)
      qed
      with a True show ?thesis
        by (intro disjI2 exI[of _ 0]) simp
    next
      assume "\<exists>i<length ts. tgt' = Some (Suc k + i) \<and> m' = int (length (members (ts ! i))) \<and> m' < int (length (members t))
        \<and> (\<forall>j<length ts. m' \<le> int (length (members (ts ! j))))
        \<and> (\<forall>j<i. m' < int (length (members (ts ! j))))"
      then obtain i where i: "i < length ts" "tgt' = Some (Suc k + i)" "m' = int (length (members (ts ! i)))"
        "m' < int (length (members t))" "\<forall>j<length ts. m' \<le> int (length (members (ts ! j)))"
        "\<forall>j<i. m' < int (length (members (ts ! j)))" by blast
      have 1: "\<forall>j<length (t # ts). m' \<le> int (length (members ((t # ts) ! j)))"
      proof (intro allI impI)
        fix j assume "j < length (t # ts)"
        then show "m' \<le> int (length (members ((t # ts) ! j)))"
          using i by (cases j) auto
      qed
      have 2: "\<forall>j<Suc i. m' < int (length (members ((t # ts) ! j)))"
      proof (intro allI impI)
        fix j assume "j < Suc i"
        then show "m' < int (length (members ((t # ts) ! j)))"
          using i by (cases j) auto
      qed
      from i 1 2 True show ?thesis
        by (intro disjI2 exI[of _ "Suc i"]) simp
    qed
  next
    case False
    with Cons.prems have rec: "scanTables ts (Suc k) tgt m = (tgt', m')"
      by simp
    from Cons.IH[OF rec] show ?thesis
    proof
      assume "(\<forall>t\<in>set ts. \<not> int (length (members t)) < m) \<and> tgt' = tgt \<and> m' = m"
      with False show ?thesis by simp
    next
      assume "\<exists>i<length ts. tgt' = Some (Suc k + i) \<and> m' = int (length (members (ts ! i))) \<and> m' < m
        \<and> (\<forall>j<length ts. m' \<le> int (length (members (ts ! j))))
        \<and> (\<forall>j<i. m' < int (length (members (ts ! j))))"
      then obtain i where i: "i < length ts" "tgt' = Some (Suc k + i)" "m' = int (length (members (ts ! i)))"
        "m' < m" "\<forall>j<length ts. m' \<le> int (length (members (ts ! j)))"
        "\<forall>j<i. m' < int (length (members (ts ! j)))" by blast
      have 1: "\<forall>j<length (t # ts). m' \<le> int (length (members ((t # ts) ! j)))"
      proof (intro allI impI)
        fix j assume "j < length (t # ts)"
        then show "m' \<le> int (length (members ((t # ts) ! j)))"
          using i False by (cases j) auto
      qed
      have 2: "\<forall>j<Suc i. m' < int (length (members ((t # ts) ! j)))"
      proof (intro allI impI)
        fix j assume "j < Suc i"
        then show "m' < int (length (members ((t # ts) ! j)))"
          using i False by (cases j) auto
      qed
      from i 1 2 show ?thesis
        by (intro disjI2 exI[of _ "Suc i"]) simp
    qed
  qed
qed

lemma scan_target_Some:
  assumes "fst (scanTables ts 0 None cap) = Some i"
  shows "i < length ts \<and> int (length (members (ts ! i))) < cap
     \<and> (\<forall>j<length ts. length (members (ts ! i)) \<le> length (members (ts ! j)))
     \<and> (\<forall>j<i. length (members (ts ! i)) < length (members (ts ! j)))"
proof -
  obtain m' where "scanTables ts 0 None cap = (Some i, m')"
    using assms by (cases "scanTables ts 0 None cap") simp
  from scan_cases[OF this] obtain k where k: "k < length ts" "Some i = Some (0 + k)"
     "\<forall>j<length ts. int (length (members (ts ! k))) \<le> int (length (members (ts ! j)))"
     "\<forall>j<k. int (length (members (ts ! k))) < int (length (members (ts ! j)))"
     "int (length (members (ts ! k))) < cap"
    by auto
  then have "k = i" by simp
  with k show ?thesis by simp
qed

lemma scan_target_None:
  assumes "fst (scanTables ts 0 None cap) = None"
  shows "\<forall>t\<in>set ts. cap \<le> int (length (members t))"
proof -
  obtain m' where "scanTables ts 0 None cap = (None, m')"
    using assms by (cases "scanTables ts 0 None cap") simp
  from scan_cases[OF this] show ?thesis by (auto simp: not_less)
qed

lemma placeUser_cases:
  "(placeUser cap ts u = ts @ [newTable (length ts + 1) [snapshot u]]
      \<and> (\<forall>t\<in>set ts. cap \<le> int (length (members t))))
   \<or> (\<exists>i<length ts. int (length (members (ts ! i))) < cap
        \<and> placeUser cap ts u = ts[i := pushMember (snapshot u) (ts ! i)])"
proof (cases "fst (scanTables ts 0 None cap)")
  case None
  with scan_target_None[OF None] show ?thesis by (simp add: placeUser_def)
next
  case (Some i)
  with scan_target_Some[OF Some] show ?thesis by (auto simp: placeUser_def)
qed

lemma allMembers_append [simp]: "allMembers (xs @ ys) = allMembers xs @ allMembers ys"
  by (simp add: allMembers_def)

lemma allMembers_Nil [simp]: "allMembers [] = []"
  by (simp add: allMembers_def)

lemma allMembers_Cons [simp]: "allMembers (t # ts) = members t @ allMembers ts"
  by (simp add: allMembers_def)

lemma mset_allMembers_push:
  "i < length ts \<Longrightarrow>
     mset (allMembers (ts[i := pushMember m (ts ! i)])) = mset (allMembers ts) + {#m#}"
proof (induction ts arbitrary: i)
  case Nil
  then show ?case by simp
next
  case (Cons t ts)
  then show ?case by (cases i) (simp_all add: pushMember_def)
qed

lemma mset_allMembers_placeUser:
  "mset (allMembers (placeUser cap ts u)) = mset (allMembers ts) + {#snapshot u#}"
  using placeUser_cases[of cap ts u]
  by (auto simp: mset_allMembers_push newTable_def)

lemma mset_allMembers_assignRoundRobin:
  "mset (allMembers (assignRoundRobin us ts cap)) = mset (allMembers ts) + mset (map snapshot us)"
  by (induction us arbitrary: ts) (simp_all add: mset_allMembers_placeUser)

lemma mset_addToGroup:
  "mset (concat (map snd (addToGroup k u gs))) = mset (concat (map snd gs)) + {#u#}"
  by (induction gs) auto

lemma mset_groupByLocation:
  "mset (concat (map snd (groupByLocation us gs))) = mset (concat (map snd gs)) + mset us"
  by (induction us arbitrary: gs) (simp_all add: mset_addToGroup)

lemma mset_allMembers_fillGroups:
  "mset (allMembers (fillGroups gs ts cap)) =
     mset (allMembers ts) + mset (map snapshot (concat (map snd gs)))"
  by (induction gs ts cap rule: fillGroups.induct) (simp_all add: mset_allMembers_assignRoundRobin)

lemma mset_allMembers_assignByLocation:
  "mset (allMembers (assignByLocation us ts cap)) = mset (allMembers ts) + mset (map snapshot us)"
proof -
  have "mset (map snapshot (concat (map snd (groupByLocation us [])))) = mset (map snapshot us)"
    using arg_cong[OF mset_groupByLocation[of us "[]"], of "image_mset snapshot"] by simp
  then show ?thesis
    by (simp add: assignByLocation_def mset_allMembers_fillGroups)
qed

lemma mset_allMembers_assign:
  "mset (allMembers (assignUsersToTables users s existing)) =
     mset (allMembers existing) + mset (map snapshot (unassignedUsers users existing))"
  by (simp add: assignUsersToTables_def mset_allMembers_assignByLocation mset_allMembers_assignRoundRobin)

lemma capacity_placeUser:
  assumes "1 \<le> cap" "\<forall>t\<in>set ts. int (length (members t)) \<le> cap"
  shows "\<forall>t\<in>set (placeUser cap ts u). int (length (members t)) \<le> cap"
  using placeUser_cases[of cap ts u]
proof
  assume "placeUser cap ts u = ts @ [newTable (length ts + 1) [snapshot u]]
      \<and> (\<forall>t\<in>set ts. cap \<le> int (length (members t)))"
  with assms show ?thesis by (auto simp: newTable_def)
next
  assume "\<exists>i<length ts. int (length (members (ts ! i))) < cap
        \<and> placeUser cap ts u = ts[i := pushMember (snapshot u) (ts ! i)]"
  then obtain i where i: "i < length ts" "int (length (members (ts ! i))) < cap"
     "placeUser cap ts u = ts[i := pushMember (snapshot u) (ts ! i)]" by blast
  show ?thesis
  proof
    fix t assume "t \<in> set (placeUser cap ts u)"
    then have "t \<in> insert (pushMember (snapshot u) (ts ! i)) (set ts)"
      using i(3) set_update_subset_insert by fastforce
    then show "int (length (members t)) \<le> cap"
      using assms(2) i(2) by (auto simp: pushMember_def)
  qed
qed

lemma capacity_assignRoundRobin:
  assumes "1 \<le> cap" "\<forall>t\<in>set ts. int (length (members t)) \<le> cap"
  shows "\<forall>t\<in>set (assignRoundRobin us ts cap). int (length (members t)) \<le> cap"
  using assms(2)
proof (induction us arbitrary: ts)
  case Nil
  then show ?case by simp
next
  case (Cons u us)
  from Cons.IH[OF capacity_placeUser[OF assms(1) Cons.prems]] show ?case by simp
qed

lemma capacity_fillGroups:
  assumes "1 \<le> cap" "\<forall>t\<in>set ts. int (length (members t)) \<le> cap"
  shows "\<forall>t\<in>set (fillGroups gs ts cap). int (length (members t)) \<le> cap"
  using assms(2)
proof (induction gs arbitrary: ts)
  case Nil
  then show ?case by simp
next
  case (Cons g gs)
  obtain k us where g: "g = (k, us)" by (cases g)
  have "\<forall>t\<in>set (assignRoundRobin us [] cap). int (length (members t)) \<le> cap"
    using capacity_assignRoundRobin[OF assms(1), of "[]" us] by simp
  with Cons.prems have "\<forall>t\<in>set (ts @ assignRoundRobin us [] cap). int (length (members t)) \<le> cap"
    by auto
  from Cons.IH[OF this] show ?case by (simp add: g)
qed

lemma capacity_assign:
  assumes "1 \<le> maxPeoplePerTable s" "\<forall>t\<in>set existing. int (length (members t)) \<le> maxPeoplePerTable s"
  shows "\<forall>t\<in>set (assignUsersToTables users s existing). int (length (members t)) \<le> maxPeoplePerTable s"
  using capacity_fillGroups[OF assms] capacity_assignRoundRobin[OF assms]
  by (simp add: assignUsersToTables_def assignByLocation_def)

section \<open>Properties of the shuffle\<close>

lemma math_random_range: "0 \<le> math_random rnd k \<and> math_random rnd k < 1"
  by (simp add: math_random_def frac_lt_1)

lemma draw_le: "nat \<lfloor>math_random rnd k * (of_nat i + 1)\<rfloor> \<le> i"
proof -
  have "math_random rnd k * (of_nat i + 1) < 1 * (of_nat i + 1)"
    using math_random_range[of rnd k] by (intro mult_strict_right_mono) auto
  then have "math_random rnd k * (of_nat i + 1) < of_int (int i + 1)"
    by simp
  then have "\<lfloor>math_random rnd k * (of_nat i + 1)\<rfloor> < int i + 1"
    by (simp only: floor_less_iff)
  then show ?thesis by linarith
qed

lemma mset_fisherYates:
  "i < length xs \<Longrightarrow> mset (fisherYates rnd k i xs) = mset xs"
proof (induction i arbitrary: k xs)
  case 0
  then show ?case by simp
next
  case (Suc i)
  let ?j = "nat \<lfloor>math_random rnd k * (of_nat (Suc i) + 1)\<rfloor>"
  let ?ys = "xs[Suc i := xs ! ?j, ?j := xs ! Suc i]"
  have j: "?j < length xs" using draw_le[of rnd k "Suc i"] Suc.prems by linarith
  have "mset ?ys = mset xs" using mset_swap[OF j Suc.prems] .
  moreover have "i < length ?ys" using Suc.prems by simp
  ultimately show ?case using Suc.IH[of ?ys "Suc k"] by (simp add: Let_def)
qed

lemma mset_shuffleUsers: "mset (shuffleUsers rnd tbls) = mset (allMembers tbls)"
proof (cases "allMembers tbls = []")
  case True
  then show ?thesis by (simp add: shuffleUsers_def)
next
  case False
  then have "length (allMembers tbls) - 1 < length (allMembers tbls)" by simp
  then show ?thesis unfolding shuffleUsers_def by (rule mset_fisherYates)
qed

lemma js_slice_chunk:
  assumes "1 \<le> cap" "i < length xs"
  shows "js_slice xs (int i) (int i + cap) = take (nat cap) (drop i xs)"
proof -
  have "take (nat (min (int i + cap) (int (length xs)) - int i)) (drop i xs) = take (nat cap) (drop i xs)"
  proof (cases "int i + cap \<le> int (length xs)")
    case True
    then show ?thesis by (simp add: min_def)
  next
    case False
    then have "length (drop i xs) \<le> nat cap" "length (drop i xs) \<le> nat (int (length xs) - int i)"
      by auto
    then show ?thesis using False by (simp add: min_def)
  qed
  then show ?thesis using assms by (simp add: js_slice_def Let_def min_def)
qed

lemma redistribute_chunks:
  assumes "1 \<le> cap"
  shows "redistribute xs cap (int i) acc =
           Some (acc @ numberTables (length acc) (chunks (nat cap) (drop i xs)))"
proof (induction "length xs - i" arbitrary: i acc rule: less_induct)
  case less
  show ?case
  proof (cases "i < length xs")
    case True
    have c: "nat cap \<noteq> 0" "int (nat cap) = cap" using assms by auto
    have ne: "drop i xs \<noteq> []" using True by simp
    have step: "redistribute xs cap (int i) acc =
        redistribute xs cap (int (i + nat cap)) (acc @ [newTable (length acc + 1) (take (nat cap) (drop i xs))])"
      using True c js_slice_chunk[OF assms True]
      by (subst redistribute.simps) simp
    have "length xs - (i + nat cap) < length xs - i" using True c by linarith
    from less[OF this] step
    have "redistribute xs cap (int i) acc =
        Some ((acc @ [newTable (length acc + 1) (take (nat cap) (drop i xs))]) @
          numberTables (Suc (length acc)) (chunks (nat cap) (drop (i + nat cap) xs)))"
      by simp
    moreover have "chunks (nat cap) (drop i xs) =
        take (nat cap) (drop i xs) # chunks (nat cap) (drop (i + nat cap) xs)"
      using ne c by (subst chunks.simps) (simp add: add.commute)
    ultimately show ?thesis by simp
  next
    case False
    then have "drop i xs = []" by simp
    then have "chunks (nat cap) (drop i xs) = []" by (simp add: chunks.simps)
    then show ?thesis using False by (subst redistribute.simps) simp
  qed
qed

lemma concat_chunks: "0 < c \<Longrightarrow> concat (chunks c xs) = xs"
proof (induction c xs rule: chunks.induct)
  case (1 c xs)
  show ?case
  proof (cases "xs = []")
    case True
    then show ?thesis by (simp add: chunks.simps)
  next
    case False
    with 1 show ?thesis by (subst chunks.simps) simp
  qed
qed

lemma chunks_sizes:
  "0 < c \<Longrightarrow> ch \<in> set (chunks c xs) \<Longrightarrow> 1 \<le> length ch \<and> length ch \<le> c"
proof (induction c xs rule: chunks.induct)
  case (1 c xs)
  show ?case
  proof (cases "xs = []")
    case True
    with 1 show ?thesis by (simp add: chunks.simps)
  next
    case False
    with 1(2,3) have "ch = take c xs \<or> ch \<in> set (chunks c (drop c xs))"
      by (subst (asm) chunks.simps) simp
    then show ?thesis
    proof
      assume "ch = take c xs"
      with False 1(2) show ?thesis by (cases xs) (auto simp: Suc_le_eq)
    next
      assume "ch \<in> set (chunks c (drop c xs))"
      with 1 False show ?thesis by simp
    qed
  qed
qed

lemma chunks_nth:
  "0 < c \<Longrightarrow> k < length (chunks c xs) \<Longrightarrow> chunks c xs ! k = take c (drop (k * c) xs)"
proof (induction c xs arbitrary: k rule: chunks.induct)
  case (1 c xs)
  show ?case
  proof (cases "xs = []")
    case True
    with 1(3) show ?thesis by (simp add: chunks.simps)
  next
    case False
    have eq: "chunks c xs = take c xs # chunks c (drop c xs)"
      using False 1(2) by (subst chunks.simps) simp
    show ?thesis
    proof (cases k)
      case 0
      then show ?thesis by (simp add: eq)
    next
      case (Suc k')
      with 1(3) eq have "k' < length (chunks c (drop c xs))" by simp
      with 1(1)[of k'] False 1(2) have "chunks c (drop c xs) ! k' = take c (drop (k' * c) (drop c xs))"
        by simp
      then show ?thesis by (simp add: eq Suc add.commute)
    qed
  qed
qed

lemma chunks_full:
  "0 < c \<Longrightarrow> Suc k < length (chunks c xs) \<Longrightarrow> length (chunks c xs ! k) = c"
proof (induction c xs arbitrary: k rule: chunks.induct)
  case (1 c xs)
  show ?case
  proof (cases "xs = []")
    case True
    with 1(3) show ?thesis by (simp add: chunks.simps)
  next
    case False
    have eq: "chunks c xs = take c xs # chunks c (drop c xs)"
      using False 1(2) by (subst chunks.simps) simp
    show ?thesis
    proof (cases k)
      case 0
      with 1(3) eq have "chunks c (drop c xs) \<noteq> []" by auto
      then have "drop c xs \<noteq> []" by (auto simp: chunks.simps)
      then have "c < length xs" by simp
      then show ?thesis by (simp add: eq 0)
    next
      case (Suc k')
      with 1(3) eq have "Suc k' < length (chunks c (drop c xs))" by simp
      with 1(1)[of k'] False 1(2) have "length (chunks c (drop c xs) ! k') = c"
        by simp
      then show ?thesis by (simp add: eq Suc)
    qed
  qed
qed

lemma length_numberTables [simp]: "length (numberTables k mss) = length mss"
  by (induction mss arbitrary: k) simp_all

lemma numberTables_nth:
  "j < length mss \<Longrightarrow> numberTables k mss ! j = newTable (k + j + 1) (mss ! j)"
proof (induction mss arbitrary: k j)
  case Nil
  then show ?case by simp
next
  case (Cons ms mss)
  then show ?case by (cases j) simp_all
qed

lemma allMembers_numberTables: "allMembers (numberTables k mss) = concat mss"
  by (induction mss arbitrary: k) (simp_all add: allMembers_def newTable_def)

section \<open>Properties of the statistics\<close>

lemma stats_positive:
  assumes "1 \<le> totalUsers" "1 \<le> cap"
  shows "\<exists>m a e. m = \<lceil>(of_nat totalUsers :: rat) / of_nat cap\<rceil> \<and> 1 \<le> m
     \<and> getTableDistributionStats totalUsers cap =
         \<lparr> totalTables = Fin (of_int m), averagePeoplePerTable = Fin (of_int a),
           tablesWithExtraPerson = Fin (of_int e), tablesWithNormalCount = Fin (of_int (m - e)) \<rparr>
     \<and> (m - e) * a + e * (a + 1) = int totalUsers"
proof -
  define m where "m = \<lceil>(of_nat totalUsers :: rat) / of_nat cap\<rceil>"
  have "0 < (of_nat totalUsers :: rat) / of_nat cap" using assms by simp
  then have "0 < m" unfolding m_def by (simp only: zero_less_ceiling)
  then have m1: "1 \<le> m" by linarith
  then have mne: "(of_int m :: rat) \<noteq> 0" by simp
  have minT: "math_ceil (js_div (Fin (of_nat totalUsers)) (Fin (of_nat cap))) = Fin (of_int m)"
    using assms by (simp add: m_def)
  have q: "(of_nat totalUsers :: rat) / of_int m = of_int (int totalUsers) / of_int m" by simp
  have fl: "\<lfloor>(of_nat totalUsers :: rat) / of_int m\<rfloor> = int totalUsers div m"
    unfolding q by (rule floor_divide_of_int_eq)
  have nonneg: "0 \<le> (of_nat totalUsers :: rat) / of_int m" using m1 by simp
  have tr: "js_trunc ((of_nat totalUsers :: rat) / of_int m) = int totalUsers div m"
    using nonneg fl by (simp add: js_trunc_def)
  have avg: "math_floor (js_div (Fin (of_nat totalUsers)) (Fin (of_int m))) = Fin (of_int (int totalUsers div m))"
    using mne fl by simp
  have "(of_nat totalUsers :: rat) - of_int m * of_int (int totalUsers div m)
           = of_int (int totalUsers - m * (int totalUsers div m))" by simp
  also have "int totalUsers - m * (int totalUsers div m) = int totalUsers mod m"
    by (simp add: minus_mult_div_eq_mod)
  finally have ex: "js_mod (Fin (of_nat totalUsers)) (Fin (of_int m)) = Fin (of_int (int totalUsers mod m))"
    using mne tr by simp
  have st: "getTableDistributionStats totalUsers cap =
         \<lparr> totalTables = Fin (of_int m), averagePeoplePerTable = Fin (of_int (int totalUsers div m)),
           tablesWithExtraPerson = Fin (of_int (int totalUsers mod m)),
           tablesWithNormalCount = Fin (of_int (m - int totalUsers mod m)) \<rparr>"
    unfolding getTableDistributionStats_def Let_def minT avg ex by simp
  have "(m - int totalUsers mod m) * (int totalUsers div m) + (int totalUsers mod m) * (int totalUsers div m + 1)
          = m * (int totalUsers div m) + int totalUsers mod m"
    by (simp add: algebra_simps)
  also have "\<dots> = int totalUsers" by simp
  finally have idn: "(m - int totalUsers mod m) * (int totalUsers div m) + (int totalUsers mod m) * (int totalUsers div m + 1) = int totalUsers" .
  from m1 st idn show ?thesis unfolding m_def by blast
qed

section \<open>The round-robin fill follows its policy; seating\<close>


lemma assignedUserIds_Nil [simp]: "assignedUserIds [] = {}"
  by (simp add: assignedUserIds_def)

lemma assignedUserIds_append [simp]:
  "assignedUserIds (xs @ ys) = assignedUserIds xs \<union> assignedUserIds ys"
  by (simp add: assignedUserIds_def)





lemma assignedUserIds_Union: "assignedUserIds ts = (\<Union>t\<in>set ts. memberIds t)"
  by (auto simp: assignedUserIds_def allMembers_def memberIds_def)

lemma assignedUserIds_placeUser:
  "assignedUserIds (placeUser cap ts u) = insert (user_id u) (assignedUserIds ts)"
proof -
  have "set (allMembers (placeUser cap ts u)) = insert (snapshot u) (set (allMembers ts))"
    using arg_cong[OF mset_allMembers_placeUser[of cap ts u], of set_mset] by simp
  then show ?thesis by (simp add: assignedUserIds_def snapshot_def)
qed

lemma assignedUserIds_assignRoundRobin:
  "assignedUserIds (assignRoundRobin us ts cap) = assignedUserIds ts \<union> user_id ` set us"
  by (induction us arbitrary: ts) (auto simp: assignedUserIds_placeUser)

lemma noDoubleSeating_push:
  assumes "noDoubleSeating ts" "i < length ts" "member_id m \<notin> assignedUserIds ts"
  shows "noDoubleSeating (ts[i := pushMember m (ts ! i)])"
proof -
  let ?ts' = "ts[i := pushMember m (ts ! i)]"
  have ids: "\<And>k. k < length ts \<Longrightarrow> memberIds (?ts' ! k) \<subseteq> (if k = i then insert (member_id m) (memberIds (ts ! k)) else memberIds (ts ! k))"
    using assms(2) by (auto simp: nth_list_update memberIds_def pushMember_def)
  have notin: "\<And>k. k < length ts \<Longrightarrow> member_id m \<notin> memberIds (ts ! k)"
    using assms(3) by (auto simp: assignedUserIds_Union)
  have old: "\<And>a b. a < b \<Longrightarrow> b < length ts \<Longrightarrow> memberIds (ts ! a) \<inter> memberIds (ts ! b) = {}"
    using assms(1) by (simp add: noDoubleSeating_def sorted_wrt_iff_nth_less)
  have "\<And>a b. a < b \<Longrightarrow> b < length ?ts' \<Longrightarrow> memberIds (?ts' ! a) \<inter> memberIds (?ts' ! b) = {}"
  proof -
    fix a b assume ab: "a < b" "b < length ?ts'"
    then have a: "a < length ts" and b: "b < length ts" by simp_all
    have "a \<noteq> b" using ab by simp
    show "memberIds (?ts' ! a) \<inter> memberIds (?ts' ! b) = {}"
    proof (rule ccontr)
      assume "memberIds (?ts' ! a) \<inter> memberIds (?ts' ! b) \<noteq> {}"
      then obtain x where x: "x \<in> memberIds (?ts' ! a)" "x \<in> memberIds (?ts' ! b)" by blast
      from x(1) ids[OF a] have xa: "x \<in> memberIds (ts ! a) \<or> (a = i \<and> x = member_id m)"
        by (auto split: if_splits)
      from x(2) ids[OF b] have xb: "x \<in> memberIds (ts ! b) \<or> (b = i \<and> x = member_id m)"
        by (auto split: if_splits)
      from xa xb notin[OF a] notin[OF b] old[OF ab(1) b] \<open>a \<noteq> b\<close> show False by blast
    qed
  qed
  then show ?thesis by (simp add: noDoubleSeating_def sorted_wrt_iff_nth_less)
qed

lemma noDoubleSeating_append:
  "noDoubleSeating (xs @ ys) \<longleftrightarrow>
     noDoubleSeating xs \<and> noDoubleSeating ys \<and> assignedUserIds xs \<inter> assignedUserIds ys = {}"
  by (auto simp: noDoubleSeating_def sorted_wrt_append assignedUserIds_Union)

lemma noDoubleSeating_placeUser:
  assumes "noDoubleSeating ts" "user_id u \<notin> assignedUserIds ts"
  shows "noDoubleSeating (placeUser cap ts u)"
  using placeUser_cases[of cap ts u]
proof
  assume a: "placeUser cap ts u = ts @ [newTable (length ts + 1) [snapshot u]]
      \<and> (\<forall>t\<in>set ts. cap \<le> int (length (members t)))"
  have "assignedUserIds [newTable (length ts + 1) [snapshot u]] = {user_id u}"
    by (simp add: assignedUserIds_def newTable_def snapshot_def)
  moreover have "noDoubleSeating [newTable (length ts + 1) [snapshot u]]"
    by (simp add: noDoubleSeating_def)
  ultimately show ?thesis using a assms by (simp add: noDoubleSeating_append)
next
  assume "\<exists>i<length ts. int (length (members (ts ! i))) < cap
        \<and> placeUser cap ts u = ts[i := pushMember (snapshot u) (ts ! i)]"
  then obtain i where i: "i < length ts" "placeUser cap ts u = ts[i := pushMember (snapshot u) (ts ! i)]"
    by blast
  have "member_id (snapshot u) \<notin> assignedUserIds ts" using assms(2) by (simp add: snapshot_def)
  from noDoubleSeating_push[OF assms(1) i(1) this] i(2) show ?thesis by simp
qed

lemma noDoubleSeating_assignRoundRobin:
  assumes "noDoubleSeating ts" "distinct (map user_id us)" "user_id ` set us \<inter> assignedUserIds ts = {}"
  shows "noDoubleSeating (assignRoundRobin us ts cap)"
  using assms
proof (induction us arbitrary: ts)
  case Nil
  then show ?case by simp
next
  case (Cons u us)
  have 1: "noDoubleSeating (placeUser cap ts u)"
    using Cons.prems by (intro noDoubleSeating_placeUser) auto
  have 2: "distinct (map user_id us)" using Cons.prems by simp
  have 3: "user_id ` set us \<inter> assignedUserIds (placeUser cap ts u) = {}"
    using Cons.prems by (auto simp: assignedUserIds_placeUser)
  from Cons.IH[OF 1 2 3] show ?case by simp
qed

lemma assignedUserIds_fillGroups:
  "assignedUserIds (fillGroups gs ts cap) = assignedUserIds ts \<union> user_id ` set (concat (map snd gs))"
  by (induction gs ts cap rule: fillGroups.induct) (auto simp: assignedUserIds_assignRoundRobin)

lemma noDoubleSeating_fillGroups:
  assumes "noDoubleSeating ts" "distinct (map user_id (concat (map snd gs)))"
     "user_id ` set (concat (map snd gs)) \<inter> assignedUserIds ts = {}"
  shows "noDoubleSeating (fillGroups gs ts cap)"
  using assms
proof (induction gs arbitrary: ts)
  case Nil
  then show ?case by simp
next
  case (Cons g gs)
  obtain k us where g: "g = (k, us)" by (cases g)
  let ?B = "assignRoundRobin us [] cap"
  have idsB: "assignedUserIds ?B = user_id ` set us"
    by (simp add: assignedUserIds_assignRoundRobin)
  have dus: "distinct (map user_id us)" using Cons.prems(2) g by simp
  have B: "noDoubleSeating ?B"
    using dus by (intro noDoubleSeating_assignRoundRobin) (simp_all add: noDoubleSeating_def)
  have 1: "noDoubleSeating (ts @ ?B)"
    using Cons.prems(1,3) B idsB g by (auto simp: noDoubleSeating_append)
  have 2: "distinct (map user_id (concat (map snd gs)))" using Cons.prems(2) g by simp
  have sep: "user_id ` set us \<inter> user_id ` set (concat (map snd gs)) = {}"
    using Cons.prems(2) g by simp
  have rest: "user_id ` set (concat (map snd gs)) \<inter> assignedUserIds ts = {}"
    using Cons.prems(3) g by auto
  have 3: "user_id ` set (concat (map snd gs)) \<inter> assignedUserIds (ts @ ?B) = {}"
    using sep rest unfolding assignedUserIds_append idsB by blast
  from Cons.IH[OF 1 2 3] show ?case by (simp add: g)
qed

lemma noDoubleSeating_assign:
  assumes "distinct (map user_id users)" "noDoubleSeating existing"
  shows "noDoubleSeating (assignUsersToTables users s existing)"
proof -
  let ?un = "unassignedUsers users existing"
  have d: "distinct (map user_id ?un)"
    using assms(1) by (simp add: unassignedUsers_def distinct_map_filter)
  have dis: "user_id ` set ?un \<inter> assignedUserIds existing = {}"
    by (auto simp: unassignedUsers_def)
  have rr: "noDoubleSeating (assignRoundRobin ?un existing (maxPeoplePerTable s))"
    using assms(2) d dis by (rule noDoubleSeating_assignRoundRobin)
  let ?gs = "groupByLocation ?un []"
  have m: "mset (concat (map snd ?gs)) = mset ?un"
    using mset_groupByLocation[of ?un "[]"] by simp
  then have "mset (map user_id (concat (map snd ?gs))) = mset (map user_id ?un)"
    by (metis mset_map)
  then have d2: "distinct (map user_id (concat (map snd ?gs)))"
    using d by (metis mset_eq_imp_distinct_iff)
  have "set (concat (map snd ?gs)) = set ?un" using m by (rule mset_eq_setD)
  then have dis2: "user_id ` set (concat (map snd ?gs)) \<inter> assignedUserIds existing = {}"
    using dis by simp
  have "noDoubleSeating (fillGroups ?gs existing (maxPeoplePerTable s))"
    using assms(2) d2 dis2 by (rule noDoubleSeating_fillGroups)
  with rr show ?thesis by (simp add: assignUsersToTables_def assignByLocation_def)
qed

lemma assignedUserIds_assign:
  "assignedUserIds (assignUsersToTables users s existing) = assignedUserIds existing \<union> user_id ` set users"
proof -
  have "set (allMembers (assignUsersToTables users s existing)) =
          set (allMembers existing) \<union> snapshot ` set (unassignedUsers users existing)"
    using arg_cong[OF mset_allMembers_assign[of users s existing], of set_mset] by simp
  then have "assignedUserIds (assignUsersToTables users s existing) =
          assignedUserIds existing \<union> user_id ` set (unassignedUsers users existing)"
    by (simp add: assignedUserIds_def image_Un image_image snapshot_def)
  then show ?thesis by (auto simp: unassignedUsers_def)
qed

lemma assign_idempotent:
  "assignUsersToTables users s (assignUsersToTables users s existing) = assignUsersToTables users s existing"
proof -
  have "unassignedUsers users (assignUsersToTables users s existing) = []"
    by (simp add: unassignedUsers_def assignedUserIds_assign filter_empty_conv)
  then show ?thesis
    by (simp add: assignUsersToTables_def[of users s "assignUsersToTables users s existing"] assignByLocation_def)
qed

section \<open>Properties of the move\<close>

lemma findIndex_Some:
  "findIndex P xs = Some i \<Longrightarrow> i < length xs \<and> P (xs ! i) \<and> (\<forall>j<i. \<not> P (xs ! j))"
proof (induction xs arbitrary: i)
  case Nil
  then show ?case by simp
next
  case (Cons x xs)
  show ?case
  proof (cases "P x")
    case True
    with Cons.prems show ?thesis by simp
  next
    case False
    with Cons.prems obtain i' where i': "findIndex P xs = Some i'" "i = Suc i'" by auto
    from Cons.IH[OF i'(1)] have ih: "i' < length xs" "P (xs ! i')" "\<forall>j<i'. \<not> P (xs ! j)" by auto
    have "\<forall>j<Suc i'. \<not> P ((x # xs) ! j)"
    proof (intro allI impI)
      fix j assume "j < Suc i'"
      then show "\<not> P ((x # xs) ! j)" using False ih(3) by (cases j) auto
    qed
    with ih i'(2) show ?thesis by simp
  qed
qed

lemma findIndex_None: "findIndex P xs = None \<longleftrightarrow> (\<forall>x\<in>set xs. \<not> P x)"
  by (induction xs) auto

lemma map_copyTable [simp]: "map copyTable tbls = tbls"
  by (induction tbls) (simp_all add: copyTable_def)

lemma move_failure_unchanged:
  "\<not> success (moveUserBetweenTables tbls u A B cap) \<Longrightarrow> tables (moveUserBetweenTables tbls u A B cap) = tbls"
  by (auto simp: moveUserBetweenTables_def Let_def split: option.splits if_splits)

lemma move_success_shape:
  assumes "success (moveUserBetweenTables tbls u A B cap)"
  shows "\<exists>fi ti ui.
       findIndex (\<lambda>t. table_id t = A) tbls = Some fi
     \<and> findIndex (\<lambda>t. table_id t = B) tbls = Some ti
     \<and> findIndex (\<lambda>m. member_id m = u) (members (tbls ! fi)) = Some ui
     \<and> int (length (members (tbls ! ti))) < cap
     \<and> tables (moveUserBetweenTables tbls u A B cap) =
         (let removed = tbls[fi := (tbls ! fi)\<lparr>members := removeAt ui (members (tbls ! fi))\<rparr>]
          in removed[ti := pushMember (members (tbls ! fi) ! ui) (removed ! ti)])"
  using assms
  by (auto simp: moveUserBetweenTables_def Let_def split: option.splits if_splits)

lemma move_success_iff:
  "success (moveUserBetweenTables tbls u A B cap) \<longleftrightarrow>
     (\<exists>fi ti ui. findIndex (\<lambda>t. table_id t = A) tbls = Some fi
        \<and> findIndex (\<lambda>t. table_id t = B) tbls = Some ti
        \<and> int (length (members (tbls ! ti))) < cap
        \<and> findIndex (\<lambda>m. member_id m = u) (members (tbls ! fi)) = Some ui)"
  by (auto simp: moveUserBetweenTables_def Let_def split: option.splits if_splits)

lemma move_message:
  "message (moveUserBetweenTables tbls u A B cap) =
     (if findIndex (\<lambda>t. table_id t = A) tbls = None \<or> findIndex (\<lambda>t. table_id t = B) tbls = None
      then ''Table not found''
      else if cap \<le> int (length (members (tbls ! the (findIndex (\<lambda>t. table_id t = B) tbls))))
      then ''Destination table is full''
      else if findIndex (\<lambda>m. member_id m = u) (members (tbls ! the (findIndex (\<lambda>t. table_id t = A) tbls))) = None
      then ''User not found in source table''
      else ''User moved successfully'')"
  by (auto simp: moveUserBetweenTables_def Let_def split: option.splits if_splits)

lemma move_keeps_tables:
  "map table_id (tables (moveUserBetweenTables tbls u A B cap)) = map table_id tbls"
proof (cases "success (moveUserBetweenTables tbls u A B cap)")
  case False
  then show ?thesis by (simp add: move_failure_unchanged)
next
  case True
  from move_success_shape[OF True] obtain fi ti ui where
    s: "findIndex (\<lambda>t. table_id t = A) tbls = Some fi" "findIndex (\<lambda>t. table_id t = B) tbls = Some ti"
       "tables (moveUserBetweenTables tbls u A B cap) =
         (let removed = tbls[fi := (tbls ! fi)\<lparr>members := removeAt ui (members (tbls ! fi))\<rparr>]
          in removed[ti := pushMember (members (tbls ! fi) ! ui) (removed ! ti)])" by blast
  from findIndex_Some[OF s(1)] findIndex_Some[OF s(2)] have lt: "fi < length tbls" "ti < length tbls" by auto
  show ?thesis unfolding s(3) Let_def
    by (rule nth_equalityI) (use lt in \<open>auto simp: nth_list_update pushMember_def\<close>)
qed

lemma capacity_move:
  assumes "\<forall>t\<in>set tbls. int (length (members t)) \<le> cap"
  shows "\<forall>t\<in>set (tables (moveUserBetweenTables tbls u A B cap)). int (length (members t)) \<le> cap"
proof (cases "success (moveUserBetweenTables tbls u A B cap)")
  case False
  with assms show ?thesis by (simp add: move_failure_unchanged)
next
  case True
  from move_success_shape[OF True] obtain fi ti ui where
    s: "findIndex (\<lambda>t. table_id t = A) tbls = Some fi" "findIndex (\<lambda>t. table_id t = B) tbls = Some ti"
       "findIndex (\<lambda>m. member_id m = u) (members (tbls ! fi)) = Some ui"
       "int (length (members (tbls ! ti))) < cap"
       "tables (moveUserBetweenTables tbls u A B cap) =
         (let removed = tbls[fi := (tbls ! fi)\<lparr>members := removeAt ui (members (tbls ! fi))\<rparr>]
          in removed[ti := pushMember (members (tbls ! fi) ! ui) (removed ! ti)])" by blast
  from findIndex_Some[OF s(1)] findIndex_Some[OF s(2)] findIndex_Some[OF s(3)]
  have lt: "fi < length tbls" "ti < length tbls" "ui < length (members (tbls ! fi))" by auto
  have old: "\<And>k. k < length tbls \<Longrightarrow> int (length (members (tbls ! k))) \<le> cap"
    using assms by simp
  let ?r = "tables (moveUserBetweenTables tbls u A B cap)"
  have len: "length ?r = length tbls" unfolding s(5) Let_def by simp
  have "\<And>k. k < length tbls \<Longrightarrow> int (length (members (?r ! k))) \<le> cap"
  proof -
    fix k assume k: "k < length tbls"
    show "int (length (members (?r ! k))) \<le> cap"
      unfolding s(5) Let_def
      using k lt s(4) old[OF k] old[OF lt(1)]
      by (auto simp: nth_list_update pushMember_def removeAt_def)
  qed
  then show ?thesis using len by (metis in_set_conv_nth)
qed

lemma members_numberTables: "map members (numberTables k mss) = mss"
  by (induction mss arbitrary: k) (simp_all add: newTable_def)

lemma shuffle_result:
  assumes "1 \<le> cap"
  shows "shuffleTables rnd tbls cap = Some (numberTables 0 (chunks (nat cap) (shuffleUsers rnd tbls)))"
  using redistribute_chunks[OF assms, of "shuffleUsers rnd tbls" 0 "[]"]
  by (simp add: shuffleTables_def)

lemma capacity_shuffle:
  assumes "1 \<le> cap"
  shows "\<exists>newTables. shuffleTables rnd tbls cap = Some newTables
            \<and> (\<forall>t\<in>set newTables. int (length (members t)) \<le> cap)"
proof -
  let ?nt = "numberTables 0 (chunks (nat cap) (shuffleUsers rnd tbls))"
  have "\<forall>t\<in>set ?nt. int (length (members t)) \<le> cap"
  proof
    fix t assume "t \<in> set ?nt"
    then have "members t \<in> set (map members ?nt)" by simp
    then have "members t \<in> set (chunks (nat cap) (shuffleUsers rnd tbls))"
      by (simp only: members_numberTables)
    from chunks_sizes[OF _ this] assms show "int (length (members t)) \<le> cap" by linarith
  qed
  with shuffle_result[OF assms] show ?thesis by blast
qed

section \<open>Further auxiliary facts\<close>

lemma length_shuffleUsers: "length (shuffleUsers rnd tbls) = length (allMembers tbls)"
  using mset_eq_length[OF mset_shuffleUsers[of rnd tbls]] .

lemma chunks_six_by_five:
  assumes "length xs = 6"
  shows "map length (chunks 5 xs) = [5, 1]"
proof -
  have ne: "xs \<noteq> []" "drop 5 xs \<noteq> []" using assms by auto
  have e: "drop 5 (drop 5 xs) = []" using assms by simp
  have "chunks 5 xs = [take 5 xs, take 5 (drop 5 xs)]"
    using ne e by (simp add: chunks.simps[of 5 xs] chunks.simps[of 5 "drop 5 xs"] chunks.simps[of 5 "[]"])
  then show ?thesis using assms by simp
qed

lemma find_first:
  assumes "i < length xs" "P (xs ! i)" "\<forall>j<i. \<not> P (xs ! j)"
  shows "find P xs = Some (xs ! i)"
  using assms by (auto simp: find_Some_iff)

lemma floor_rat_numeral_div: "\<lfloor>(numeral a :: rat) / numeral b\<rfloor> = numeral a div numeral b"
  by (metis floor_divide_of_int_eq of_int_numeral)

lemmas eval_assign =
  assignUsersToTables_def unassignedUsers_def assignedUserIds_def allMembers_def
  assignByLocation_def locationKey_def userAt_def userWithId_def memberWithId_def tableOf_def
  math_round_def floor_rat_numeral_div string_of_int_def string_of_nat.simps digit_char_def
  placeUser_def newTable_def snapshot_def js_or_def truthy_def pushMember_def

lemma stats_scenario:
  "getTableDistributionStats 7 5 =
     \<lparr> totalTables = Fin 2, averagePeoplePerTable = Fin 3,
       tablesWithExtraPerson = Fin 1, tablesWithNormalCount = Fin 1 \<rparr>"
  by code_simp

section \<open>The move on a store refines the move on values\<close>

lemma those_map_Some_iff:
  "those (map f xs) = Some ys \<longleftrightarrow> length ys = length xs \<and> (\<forall>k<length xs. f (xs ! k) = Some (ys ! k))"
proof (induction xs arbitrary: ys)
  case Nil
  then show ?case by auto
next
  case (Cons x xs)
  show ?case
  proof (cases "f x")
    case None
    then show ?thesis by (auto intro: exI[of _ 0])
  next
    case (Some y)
    show ?thesis
    proof
      assume "those (map f (x # xs)) = Some ys"
      with Some obtain ys' where ys': "those (map f xs) = Some ys'" "ys = y # ys'" by auto
      from ys'(1) Cons.IH[of ys'] have ih: "length ys' = length xs" "\<forall>k<length xs. f (xs ! k) = Some (ys' ! k)"
        by auto
      have "\<forall>k<length (x # xs). f ((x # xs) ! k) = Some (ys ! k)"
      proof (intro allI impI)
        fix k assume "k < length (x # xs)"
        then show "f ((x # xs) ! k) = Some (ys ! k)" using ih Some ys'(2) by (cases k) auto
      qed
      with ih ys'(2) show "length ys = length (x # xs) \<and> (\<forall>k<length (x # xs). f ((x # xs) ! k) = Some (ys ! k))"
        by simp
    next
      assume a: "length ys = length (x # xs) \<and> (\<forall>k<length (x # xs). f ((x # xs) ! k) = Some (ys ! k))"
      then obtain y' ys' where ys: "ys = y' # ys'" by (cases ys) auto
      from a ys have "f x = Some y'" by auto
      with Some have y: "y' = y" by simp
      have "length ys' = length xs \<and> (\<forall>k<length xs. f (xs ! k) = Some (ys' ! k))"
        using a ys by auto
      with Cons.IH[of ys'] have "those (map f xs) = Some ys'" by simp
      with Some ys y show "those (map f (x # xs)) = Some ys" by simp
    qed
  qed
qed

lemma tableObjectAt_append:
  "tableObjectAt h r = Some x \<Longrightarrow> tableObjectAt (h @ ext) r = Some x"
  by (auto simp: tableObjectAt_def nth_append split: if_splits)

lemma memberArrayAt_append:
  "memberArrayAt h r = Some x \<Longrightarrow> memberArrayAt (h @ ext) r = Some x"
  by (auto simp: memberArrayAt_def nth_append split: if_splits)

lemma tableArrayAt_append:
  "tableArrayAt h r = Some x \<Longrightarrow> tableArrayAt (h @ ext) r = Some x"
  by (auto simp: tableArrayAt_def nth_append split: if_splits)

lemma readTable_append:
  "readTable h r = Some t \<Longrightarrow> readTable (h @ ext) r = Some t"
  by (auto simp: readTable_def tableObjectAt_append memberArrayAt_append split: option.splits)

lemma readTables_append:
  "readTables h r = Some ts \<Longrightarrow> readTables (h @ ext) r = Some ts"
  by (auto simp: readTables_def tableArrayAt_append those_map_Some_iff readTable_append split: option.splits)

lemma length_copyCells [simp]: "length (copyCells n ts) = 2 * length ts"
  by (induction ts arbitrary: n) simp_all

lemma length_copyRefs [simp]: "length (copyRefs n ts) = length ts"
  by (induction ts arbitrary: n) simp_all

lemma copyRefs_nth: "k < length ts \<Longrightarrow> copyRefs n ts ! k = n + 2 * k + 1"
proof (induction ts arbitrary: n k)
  case Nil
  then show ?case by simp
next
  case (Cons t ts)
  then show ?case by (cases k) simp_all
qed

lemma copyCells_nth:
  "k < length ts \<Longrightarrow>
     copyCells n ts ! (2 * k) = MemberArray (members (ts ! k))
   \<and> copyCells n ts ! (2 * k + 1) = TableObject (table_id (ts ! k)) (table_name (ts ! k)) (n + 2 * k)"
proof (induction ts arbitrary: n k)
  case Nil
  then show ?case by simp
next
  case (Cons t ts)
  show ?case
  proof (cases k)
    case 0
    then show ?thesis by simp
  next
    case (Suc k')
    with Cons.prems have "k' < length ts" by simp
    from Cons.IH[OF this, of "n + 2"] Suc show ?thesis by simp
  qed
qed

lemma copyTables_cells:
  "those (map (readTable h) rs) = Some ts \<Longrightarrow>
     copyTables h rs = Some (h @ copyCells (length h) ts, copyRefs (length h) ts)"
proof (induction rs arbitrary: h ts)
  case Nil
  then show ?case by simp
next
  case (Cons r rs)
  from Cons.prems obtain t ts' where
    t: "readTable h r = Some t" and ts': "those (map (readTable h) rs) = Some ts'" and ts: "ts = t # ts'"
    by (auto split: option.splits)
  from t obtain mref where
    obj: "tableObjectAt h r = Some (table_id t, table_name t, mref)" and
    arr: "memberArrayAt h mref = Some (members t)"
    by (auto simp: readTable_def split: option.splits)
  let ?h2 = "h @ [MemberArray (members t), TableObject (table_id t) (table_name t) (length h)]"
  have "those (map (readTable ?h2) rs) = Some ts'"
    using ts' by (auto simp: those_map_Some_iff readTable_append)
  from Cons.IH[OF this]
  have "copyTables ?h2 rs = Some (?h2 @ copyCells (length h + 2) ts', copyRefs (length h + 2) ts')"
    by simp
  then show ?case using obj arr ts by (simp add: alloc_def)
qed

lemma find_findIndex:
  assumes "length rs = length xs" "\<forall>k<length xs. P (rs ! k) = Q (xs ! k)"
  shows "find P rs = map_option (\<lambda>i. rs ! i) (findIndex Q xs)"
  using assms
proof (induction rs xs rule: list_induct2)
  case Nil
  then show ?case by simp
next
  case (Cons r rs x xs)
  have head: "P r = Q x" using Cons.prems by force
  have "\<forall>k<length xs. P (rs ! k) = Q (xs ! k)"
  proof (intro allI impI)
    fix k assume "k < length xs"
    then have "Suc k < length (x # xs)" by simp
    with Cons.prems have "P ((r # rs) ! Suc k) = Q ((x # xs) ! Suc k)" by blast
    then show "P (rs ! k) = Q (xs ! k)" by simp
  qed
  with Cons.IH have "find P rs = map_option (\<lambda>i. rs ! i) (findIndex Q xs)" by simp
  with head show ?case by (cases "findIndex Q xs") simp_all
qed

lemma copyRefs_cong: "length xs = length ys \<Longrightarrow> copyRefs n xs = copyRefs n ys"
proof (induction xs arbitrary: ys n)
  case Nil
  then show ?case by simp
next
  case (Cons x xs)
  then obtain y ys' where ys: "ys = y # ys'" "length xs = length ys'" by (cases ys) auto
  from Cons.IH[OF ys(2), of "n + 2"] ys(1) show ?case by simp
qed

lemma copyCells_update:
  "k < length ts \<Longrightarrow>
     (copyCells n ts)[2 * k := MemberArray ms] = copyCells n (ts[k := (ts ! k)\<lparr>members := ms\<rparr>])"
proof (induction ts arbitrary: n k)
  case Nil
  then show ?case by simp
next
  case (Cons t ts)
  show ?case
  proof (cases k)
    case 0
    then show ?thesis by simp
  next
    case (Suc k')
    with Cons.prems have "k' < length ts" by simp
    from Cons.IH[OF this, of "n + 2"] Suc show ?thesis by simp
  qed
qed

lemma copied_update:
  assumes "k < length ts"
  shows "(h @ copyCells n ts @ rest)[length h + 2 * k := MemberArray ms]
           = h @ copyCells n (ts[k := (ts ! k)\<lparr>members := ms\<rparr>]) @ rest"
proof -
  have "2 * k < length (copyCells n ts)" using assms by simp
  then show ?thesis
    by (simp add: list_update_append copyCells_update[OF assms])
qed

lemma copied_cells:
  assumes "k < length ts"
  shows "(h @ copyCells n ts @ rest) ! (length h + 2 * k) = MemberArray (members (ts ! k))"
    and "(h @ copyCells n ts @ rest) ! (length h + 2 * k + 1)
           = TableObject (table_id (ts ! k)) (table_name (ts ! k)) (n + 2 * k)"
proof -
  have a: "2 * k < length (copyCells n ts)" "2 * k + 1 < length (copyCells n ts)" using assms by simp_all
  have "(h @ copyCells n ts @ rest) ! (length h + 2 * k) = copyCells n ts ! (2 * k)"
    using a(1) by (simp add: nth_append)
  then show "(h @ copyCells n ts @ rest) ! (length h + 2 * k) = MemberArray (members (ts ! k))"
    using copyCells_nth[OF assms, of n] by simp
  have "(h @ copyCells n ts @ rest) ! (length h + (2 * k + 1)) = copyCells n ts ! (2 * k + 1)"
    using a(2) by (simp only: nth_append_length_plus nth_append) simp
  then show "(h @ copyCells n ts @ rest) ! (length h + 2 * k + 1)
           = TableObject (table_id (ts ! k)) (table_name (ts ! k)) (n + 2 * k)"
    using copyCells_nth[OF assms, of n] by (simp add: add.assoc)
qed

lemma copied_memberArrayAt:
  assumes "k < length ts"
  shows "memberArrayAt (h @ copyCells n ts @ rest) (length h + 2 * k) = Some (members (ts ! k))"
  using copied_cells(1)[OF assms, of h n rest] assms by (simp add: memberArrayAt_def)

lemma copied_tableObjectAt:
  assumes "k < length ts"
  shows "tableObjectAt (h @ copyCells n ts @ rest) (Suc (length h + 2 * k))
           = Some (table_id (ts ! k), table_name (ts ! k), n + 2 * k)"
  using copied_cells(2)[OF assms, of h n rest] assms by (simp add: tableObjectAt_def)

lemma copyRefs_nth_Suc: "k < length ts \<Longrightarrow> copyRefs n ts ! k = Suc (n + 2 * k)"
  by (simp add: copyRefs_nth)

lemma copied_membersOf:
  assumes "k < length ts"
  shows "membersOf (h @ copyCells (length h) ts @ rest) (copyRefs (length h) ts ! k)
           = Some (length h + 2 * k, members (ts ! k))"
  using assms
  by (simp add: membersOf_def copyRefs_nth_Suc copied_tableObjectAt copied_memberArrayAt)

lemma readTables_copied:
  "readTables (h @ copyCells (length h) ts @ [TableArray (copyRefs (length h) ts)]) (length h + 2 * length ts)
     = Some ts"
proof -
  let ?H = "h @ copyCells (length h) ts @ [TableArray (copyRefs (length h) ts)]"
  have arr: "tableArrayAt ?H (length h + 2 * length ts) = Some (copyRefs (length h) ts)"
    by (simp add: tableArrayAt_def nth_append)
  have "\<forall>k<length (copyRefs (length h) ts). readTable ?H (copyRefs (length h) ts ! k) = Some (ts ! k)"
  proof (intro allI impI)
    fix k assume "k < length (copyRefs (length h) ts)"
    then have k: "k < length ts" by simp
    show "readTable ?H (copyRefs (length h) ts ! k) = Some (ts ! k)"
      using k by (simp add: readTable_def copyRefs_nth_Suc copied_tableObjectAt copied_memberArrayAt)
  qed
  then have "those (map (readTable ?H) (copyRefs (length h) ts)) = Some ts"
    by (simp add: those_map_Some_iff)
  with arr show ?thesis by (simp add: readTables_def)
qed

lemma copied_find:
  "find (\<lambda>r. map_option fst (tableObjectAt (h @ copyCells (length h) ts @ rest) r) = Some A)
       (copyRefs (length h) ts)
     = map_option (\<lambda>i. copyRefs (length h) ts ! i) (findIndex (\<lambda>t. table_id t = A) ts)"
proof (rule find_findIndex)
  show "length (copyRefs (length h) ts) = length ts" by simp
  show "\<forall>k<length ts.
       (map_option fst (tableObjectAt (h @ copyCells (length h) ts @ rest) (copyRefs (length h) ts ! k)) = Some A)
         = (table_id (ts ! k) = A)"
    by (simp add: copyRefs_nth_Suc copied_tableObjectAt)
qed

lemma move_heap_refines:
  assumes "readTables h tablesRef = Some ts"
  shows "moveUserBetweenTables_heap h tablesRef u A B cap =
     Some (h @ copyCells (length h) (tables (moveUserBetweenTables ts u A B cap))
             @ [TableArray (copyRefs (length h) ts)],
           \<lparr> h_success = success (moveUserBetweenTables ts u A B cap),
             h_tables = length h + 2 * length ts,
             h_message = message (moveUserBetweenTables ts u A B cap) \<rparr>)"
proof -
  let ?n = "length h"
  let ?refs = "copyRefs ?n ts"
  let ?tail = "[TableArray ?refs]"
  let ?H2 = "h @ copyCells ?n ts @ ?tail"
  let ?res = "?n + 2 * length ts"
  from assms obtain rs where
    arr: "tableArrayAt h tablesRef = Some rs" and th: "those (map (readTable h) rs) = Some ts"
    by (auto simp: readTables_def split: option.splits)
  have copy: "copyTables h rs = Some (h @ copyCells ?n ts, ?refs)"
    using th by (rule copyTables_cells)
  have H2eq: "(h @ copyCells ?n ts) @ ?tail = ?H2" by simp
  have res: "length (h @ copyCells ?n ts) = ?res" by simp
  have findA: "find (\<lambda>r. map_option fst (tableObjectAt ?H2 r) = Some A) ?refs
      = map_option (\<lambda>i. ?refs ! i) (findIndex (\<lambda>t. table_id t = A) ts)"
    by (rule copied_find)
  have findB: "find (\<lambda>r. map_option fst (tableObjectAt ?H2 r) = Some B) ?refs
      = map_option (\<lambda>i. ?refs ! i) (findIndex (\<lambda>t. table_id t = B) ts)"
    by (rule copied_find)
  note start = moveUserBetweenTables_heap_def arr copy alloc_def Let_def option.case prod.case
    H2eq res findA findB option.map if_True if_False
  show ?thesis
  proof (cases "findIndex (\<lambda>t. table_id t = A) ts")
    case None
    have heap: "moveUserBetweenTables_heap h tablesRef u A B cap =
        Some (?H2, \<lparr>h_success = False, h_tables = ?res, h_message = ''Table not found''\<rparr>)"
      by (simp only: start None)
    have pure: "moveUserBetweenTables ts u A B cap =
        \<lparr>success = False, tables = ts, message = ''Table not found''\<rparr>"
      using None by (simp add: moveUserBetweenTables_def)
    show ?thesis unfolding heap pure by simp
  next
    case fA: (Some fi)
    show ?thesis
    proof (cases "findIndex (\<lambda>t. table_id t = B) ts")
      case None
      have heap: "moveUserBetweenTables_heap h tablesRef u A B cap =
          Some (?H2, \<lparr>h_success = False, h_tables = ?res, h_message = ''Table not found''\<rparr>)"
        by (simp only: start None fA)
      have pure: "moveUserBetweenTables ts u A B cap =
          \<lparr>success = False, tables = ts, message = ''Table not found''\<rparr>"
        using None fA by (simp add: moveUserBetweenTables_def)
      show ?thesis unfolding heap pure by simp
    next
      case fB: (Some ti)
      from findIndex_Some[OF fA] findIndex_Some[OF fB] have lt: "fi < length ts" "ti < length ts" by auto
      have mTo: "membersOf ?H2 (?refs ! ti) = Some (?n + 2 * ti, members (ts ! ti))"
        using lt(2) by (rule copied_membersOf)
      have mFrom: "membersOf ?H2 (?refs ! fi) = Some (?n + 2 * fi, members (ts ! fi))"
        using lt(1) by (rule copied_membersOf)
      show ?thesis
      proof (cases "cap \<le> int (length (members (ts ! ti)))")
        case True
        have heap: "moveUserBetweenTables_heap h tablesRef u A B cap =
            Some (?H2, \<lparr>h_success = False, h_tables = ?res, h_message = ''Destination table is full''\<rparr>)"
          by (simp only: start fA fB mTo True)
        have pure: "moveUserBetweenTables ts u A B cap =
            \<lparr>success = False, tables = ts, message = ''Destination table is full''\<rparr>"
          using fA fB True by (simp add: moveUserBetweenTables_def)
        show ?thesis unfolding heap pure by simp
      next
        case notfull: False
        show ?thesis
        proof (cases "findIndex (\<lambda>m. member_id m = u) (members (ts ! fi))")
          case None
          have heap: "moveUserBetweenTables_heap h tablesRef u A B cap =
              Some (?H2, \<lparr>h_success = False, h_tables = ?res,
                           h_message = ''User not found in source table''\<rparr>)"
            by (simp only: start fA fB mTo mFrom notfull None)
          have pure: "moveUserBetweenTables ts u A B cap =
              \<lparr>success = False, tables = ts, message = ''User not found in source table''\<rparr>"
            using fA fB notfull None by (simp add: moveUserBetweenTables_def)
          show ?thesis unfolding heap pure by simp
        next
          case fU: (Some ui)
          let ?r1 = "ts[fi := (ts ! fi)\<lparr>members := removeAt ui (members (ts ! fi))\<rparr>]"
          let ?user = "members (ts ! fi) ! ui"
          let ?r2 = "?r1[ti := (?r1 ! ti)\<lparr>members := members (?r1 ! ti) @ [?user]\<rparr>]"
          have h3: "?H2[?n + 2 * fi := MemberArray (removeAt ui (members (ts ! fi)))]
                      = h @ copyCells ?n ?r1 @ ?tail"
            using lt(1) by (rule copied_update)
          have ti1: "ti < length ?r1" using lt(2) by simp
          have rd: "memberArrayAt (h @ copyCells ?n ?r1 @ ?tail) (?n + 2 * ti) = Some (members (?r1 ! ti))"
            using ti1 by (rule copied_memberArrayAt)
          have h4: "(h @ copyCells ?n ?r1 @ ?tail)[?n + 2 * ti := MemberArray (members (?r1 ! ti) @ [?user])]
                      = h @ copyCells ?n ?r2 @ ?tail"
            using ti1 by (rule copied_update)
          have heap: "moveUserBetweenTables_heap h tablesRef u A B cap =
              Some (h @ copyCells ?n ?r2 @ ?tail,
                    \<lparr>h_success = True, h_tables = ?res, h_message = ''User moved successfully''\<rparr>)"
            by (simp only: start fA fB mTo mFrom notfull fU h3 rd h4)
          have pure: "moveUserBetweenTables ts u A B cap =
              \<lparr>success = True, tables = ?r2, message = ''User moved successfully''\<rparr>"
            using fA fB fU notfull by (simp add: moveUserBetweenTables_def Let_def pushMember_def)
          show ?thesis unfolding heap pure by simp
        qed
      qed
    qed
  qed
qed

lemma length_move: "length (tables (moveUserBetweenTables tbls u A B cap)) = length tbls"
  using arg_cong[OF move_keeps_tables[of tbls u A B cap], of length] by simp

lemma copied_fresh:
  assumes "length X = length ts"
  shows "tableArrayAt (h @ copyCells (length h) X @ [TableArray (copyRefs (length h) ts)])
            (length h + 2 * length ts) = Some (copyRefs (length h) ts)"
    and "\<forall>r\<in>set (copyRefs (length h) ts). length h \<le> r
            \<and> (\<exists>tid nm mref.
                  tableObjectAt (h @ copyCells (length h) X @ [TableArray (copyRefs (length h) ts)]) r
                    = Some (tid, nm, mref) \<and> length h \<le> mref)"
proof -
  let ?H = "h @ copyCells (length h) X @ [TableArray (copyRefs (length h) ts)]"
  have refs: "copyRefs (length h) ts = copyRefs (length h) X"
    using assms by (intro copyRefs_cong) simp
  show "tableArrayAt ?H (length h + 2 * length ts) = Some (copyRefs (length h) ts)"
    using assms by (simp add: tableArrayAt_def nth_append)
  show "\<forall>r\<in>set (copyRefs (length h) ts). length h \<le> r
            \<and> (\<exists>tid nm mref. tableObjectAt ?H r = Some (tid, nm, mref) \<and> length h \<le> mref)"
  proof
    fix r assume "r \<in> set (copyRefs (length h) ts)"
    then obtain k where k: "k < length X" "r = copyRefs (length h) X ! k"
      unfolding refs by (auto simp: in_set_conv_nth)
    then have r: "r = Suc (length h + 2 * k)" by (simp add: copyRefs_nth_Suc)
    have "tableObjectAt ?H (Suc (length h + 2 * k))
        = Some (table_id (X ! k), table_name (X ! k), length h + 2 * k)"
      using k(1) by (rule copied_tableObjectAt)
    with r show "length h \<le> r \<and> (\<exists>tid nm mref. tableObjectAt ?H r = Some (tid, nm, mref) \<and> length h \<le> mref)"
      by simp
  qed
qed

section \<open>What a successful move changes\<close>

lemma mset_take_drop_nth:
  "ui < length ms \<Longrightarrow> mset (take ui ms @ drop (Suc ui) ms) + {#ms ! ui#} = mset ms"
proof -
  assume "ui < length ms"
  then have "ms = take ui ms @ ms ! ui # drop (Suc ui) ms" by (rule id_take_nth_drop)
  then have "mset ms = mset (take ui ms @ ms ! ui # drop (Suc ui) ms)" by simp
  then show ?thesis by simp
qed

lemma mset_allMembers_update:
  "k < length ts \<Longrightarrow>
     mset (allMembers (ts[k := t'])) + mset (members (ts ! k)) = mset (allMembers ts) + mset (members t')"
proof (induction ts arbitrary: k)
  case Nil
  then show ?case by simp
next
  case (Cons t ts)
  show ?case
  proof (cases k)
    case 0
    then show ?thesis by simp
  next
    case (Suc k')
    with Cons.prems have "k' < length ts" by simp
    from Cons.IH[OF this] Suc show ?thesis by (simp add: add.assoc)
  qed
qed

lemma find_is_findIndex: "find P xs = map_option (\<lambda>i. xs ! i) (findIndex P xs)"
  by (rule find_findIndex) simp_all

lemma move_success_explicit:
  assumes "success (moveUserBetweenTables tbls u A B cap)"
  shows "\<exists>fi ti ui.
       fi < length tbls \<and> table_id (tbls ! fi) = A \<and> (\<forall>j<fi. table_id (tbls ! j) \<noteq> A)
     \<and> ti < length tbls \<and> table_id (tbls ! ti) = B \<and> (\<forall>j<ti. table_id (tbls ! j) \<noteq> B)
     \<and> ui < length (members (tbls ! fi)) \<and> member_id (members (tbls ! fi) ! ui) = u
     \<and> (\<forall>j<ui. member_id (members (tbls ! fi) ! j) \<noteq> u)
     \<and> int (length (members (tbls ! ti))) < cap
     \<and> (\<forall>k<length tbls. k \<noteq> fi \<and> k \<noteq> ti \<longrightarrow> tables (moveUserBetweenTables tbls u A B cap) ! k = tbls ! k)
     \<and> (fi \<noteq> ti \<longrightarrow>
           members (tables (moveUserBetweenTables tbls u A B cap) ! fi)
             = take ui (members (tbls ! fi)) @ drop (Suc ui) (members (tbls ! fi))
         \<and> members (tables (moveUserBetweenTables tbls u A B cap) ! ti)
             = members (tbls ! ti) @ [members (tbls ! fi) ! ui])
     \<and> (fi = ti \<longrightarrow>
           members (tables (moveUserBetweenTables tbls u A B cap) ! fi)
             = take ui (members (tbls ! fi)) @ drop (Suc ui) (members (tbls ! fi))
                 @ [members (tbls ! fi) ! ui])"
proof -
  let ?r = "tables (moveUserBetweenTables tbls u A B cap)"
  from move_success_shape[OF assms] obtain fi ti ui where
    s: "findIndex (\<lambda>t. table_id t = A) tbls = Some fi" "findIndex (\<lambda>t. table_id t = B) tbls = Some ti"
       "findIndex (\<lambda>m. member_id m = u) (members (tbls ! fi)) = Some ui"
       "int (length (members (tbls ! ti))) < cap"
       "?r = (let removed = tbls[fi := (tbls ! fi)\<lparr>members := removeAt ui (members (tbls ! fi))\<rparr>]
          in removed[ti := pushMember (members (tbls ! fi) ! ui) (removed ! ti)])" by blast
  note a = findIndex_Some[OF s(1)] and b = findIndex_Some[OF s(2)] and c = findIndex_Some[OF s(3)]
  have lt: "fi < length tbls" "ti < length tbls" using a b by auto
  have other: "\<forall>k<length tbls. k \<noteq> fi \<and> k \<noteq> ti \<longrightarrow> ?r ! k = tbls ! k"
    unfolding s(5) Let_def by (simp add: nth_list_update)
  have ne: "fi \<noteq> ti \<longrightarrow>
           members (?r ! fi) = take ui (members (tbls ! fi)) @ drop (Suc ui) (members (tbls ! fi))
         \<and> members (?r ! ti) = members (tbls ! ti) @ [members (tbls ! fi) ! ui]"
    unfolding s(5) Let_def using lt by (simp add: nth_list_update pushMember_def removeAt_def)
  have eq: "fi = ti \<longrightarrow>
           members (?r ! fi) = take ui (members (tbls ! fi)) @ drop (Suc ui) (members (tbls ! fi))
                 @ [members (tbls ! fi) ! ui]"
    unfolding s(5) Let_def using lt by (simp add: nth_list_update pushMember_def removeAt_def)
  from a b c s(4) other ne eq show ?thesis by blast
qed

lemma mset_allMembers_move:
  "mset (allMembers (tables (moveUserBetweenTables tbls u A B cap))) = mset (allMembers tbls)"
proof (cases "success (moveUserBetweenTables tbls u A B cap)")
  case False
  then show ?thesis by (simp add: move_failure_unchanged)
next
  case True
  from move_success_shape[OF True] obtain fi ti ui where
    s: "findIndex (\<lambda>t. table_id t = A) tbls = Some fi" "findIndex (\<lambda>t. table_id t = B) tbls = Some ti"
       "findIndex (\<lambda>m. member_id m = u) (members (tbls ! fi)) = Some ui"
       "tables (moveUserBetweenTables tbls u A B cap) =
         (let removed = tbls[fi := (tbls ! fi)\<lparr>members := removeAt ui (members (tbls ! fi))\<rparr>]
          in removed[ti := pushMember (members (tbls ! fi) ! ui) (removed ! ti)])" by blast
  from findIndex_Some[OF s(1)] findIndex_Some[OF s(2)] findIndex_Some[OF s(3)]
  have lt: "fi < length tbls" "ti < length tbls" "ui < length (members (tbls ! fi))" by auto
  let ?ms = "members (tbls ! fi)"
  let ?r1 = "tbls[fi := (tbls ! fi)\<lparr>members := removeAt ui ?ms\<rparr>]"
  have "mset (allMembers ?r1) + mset ?ms = mset (allMembers tbls) + mset (take ui ?ms @ drop (Suc ui) ?ms)"
    using mset_allMembers_update[OF lt(1), of "(tbls ! fi)\<lparr>members := removeAt ui ?ms\<rparr>"]
    by (simp add: removeAt_def)
  moreover have "mset (take ui ?ms @ drop (Suc ui) ?ms) + {#?ms ! ui#} = mset ?ms"
    using lt(3) by (rule mset_take_drop_nth)
  ultimately have "mset (allMembers ?r1) + (mset (take ui ?ms @ drop (Suc ui) ?ms) + {#?ms ! ui#})
      = mset (allMembers tbls) + mset (take ui ?ms @ drop (Suc ui) ?ms)" by simp
  then have r1: "mset (allMembers ?r1) + {#?ms ! ui#} = mset (allMembers tbls)"
    by (simp add: add.assoc[symmetric])
  have "ti < length ?r1" using lt(2) by simp
  from mset_allMembers_push[OF this, of "?ms ! ui"] r1 show ?thesis
    unfolding s(4) Let_def by simp
qed

lemma move_message_find:
  "message (moveUserBetweenTables tbls u A B cap) =
     (case (find (\<lambda>t. table_id t = A) tbls, find (\<lambda>t. table_id t = B) tbls) of
        (Some a, Some b) \<Rightarrow>
          if cap \<le> int (length (members b)) then ''Destination table is full''
          else if u \<notin> member_id ` set (members a) then ''User not found in source table''
          else ''User moved successfully''
      | _ \<Rightarrow> ''Table not found'')"
proof -
  have n: "\<And>ms. (findIndex (\<lambda>m. member_id m = u) ms = None) = (u \<notin> member_id ` set ms)"
    by (auto simp: findIndex_None)
  show ?thesis
    unfolding find_is_findIndex move_message
    by (cases "findIndex (\<lambda>t. table_id t = A) tbls"; cases "findIndex (\<lambda>t. table_id t = B) tbls")
       (simp_all add: n)
qed

lemma move_keeps_names:
  "map table_name (tables (moveUserBetweenTables tbls u A B cap)) = map table_name tbls"
proof (cases "success (moveUserBetweenTables tbls u A B cap)")
  case False
  then show ?thesis by (simp add: move_failure_unchanged)
next
  case True
  from move_success_shape[OF True] obtain fi ti ui where
    s: "findIndex (\<lambda>t. table_id t = A) tbls = Some fi" "findIndex (\<lambda>t. table_id t = B) tbls = Some ti"
       "tables (moveUserBetweenTables tbls u A B cap) =
         (let removed = tbls[fi := (tbls ! fi)\<lparr>members := removeAt ui (members (tbls ! fi))\<rparr>]
          in removed[ti := pushMember (members (tbls ! fi) ! ui) (removed ! ti)])" by blast
  from findIndex_Some[OF s(1)] findIndex_Some[OF s(2)] have lt: "fi < length tbls" "ti < length tbls" by auto
  show ?thesis unfolding s(3) Let_def
    by (rule nth_equalityI) (use lt in \<open>auto simp: nth_list_update pushMember_def\<close>)
qed

section \<open>The claims\<close>

text \<open>
  C1 (capacity invariant).  The capacity is the setting \<^verbatim>\<open>maxPeoplePerTable\<close>, which
  the data model bounds from below (at least 2; the theorem needs only 1).  When every
  input table has at most \<open>cap\<close> members, so has every table that
  \<^verbatim>\<open>assignUsersToTables\<close> returns (in either mode), every table \<^verbatim>\<open>shuffleTables\<close>
  returns (and it does return), and every table \<^verbatim>\<open>moveUserBetweenTables\<close> returns.
\<close>

theorem capacity_invariant:
  assumes "1 \<le> cap" and "\<forall>t\<in>set tbls. int (length (members t)) \<le> cap"
  shows "(\<forall>t\<in>set (assignUsersToTables users \<lparr>maxPeoplePerTable = cap, considerLocation = loc\<rparr> tbls).
            int (length (members t)) \<le> cap)
       \<and> (\<exists>newTables. shuffleTables rnd tbls cap = Some newTables
            \<and> (\<forall>t\<in>set newTables. int (length (members t)) \<le> cap))
       \<and> (\<forall>t\<in>set (tables (moveUserBetweenTables tbls u A B cap)). int (length (members t)) \<le> cap)"
proof (intro conjI)
  show "\<forall>t\<in>set (assignUsersToTables users \<lparr>maxPeoplePerTable = cap, considerLocation = loc\<rparr> tbls).
            int (length (members t)) \<le> cap"
    using capacity_assign[of "\<lparr>maxPeoplePerTable = cap, considerLocation = loc\<rparr>" tbls users] assms by simp
  show "\<exists>newTables. shuffleTables rnd tbls cap = Some newTables
            \<and> (\<forall>t\<in>set newTables. int (length (members t)) \<le> cap)"
    using assms(1) by (rule capacity_shuffle)
  show "\<forall>t\<in>set (tables (moveUserBetweenTables tbls u A B cap)). int (length (members t)) \<le> cap"
    using assms(2) by (rule capacity_move)
qed

theorem capacity_invariant_witness:
  "(1::int) \<le> 2
   \<and> list_all (\<lambda>t. int (length (members t)) \<le> 2) [tableOf ''t1'' [''a'', ''b''], tableOf ''t2'' [''c'']]
   \<and> list_all (\<lambda>t. int (length (members t)) \<le> 2)
        (assignUsersToTables [userWithId ''a'', userWithId ''d'', userWithId ''e'']
           \<lparr>maxPeoplePerTable = 2, considerLocation = True\<rparr>
           [tableOf ''t1'' [''a'', ''b''], tableOf ''t2'' [''c'']])
   \<and> (\<exists>newTables. shuffleTables (\<lambda>k. 1 / 3) [tableOf ''t1'' [''a'', ''b''], tableOf ''t2'' [''c'']] 2 = Some newTables
        \<and> list_all (\<lambda>t. int (length (members t)) \<le> 2) newTables)
   \<and> list_all (\<lambda>t. int (length (members t)) \<le> 2)
        (tables (moveUserBetweenTables [tableOf ''t1'' [''a'', ''b''], tableOf ''t2'' [''c'']] (Some ''a'') ''t1'' ''t2'' 2))"
proof -
  have h1: "(1::int) \<le> 2" by simp
  have h2: "\<forall>t\<in>set [tableOf ''t1'' [''a'', ''b''], tableOf ''t2'' [''c'']]. int (length (members t)) \<le> 2"
    by (simp add: tableOf_def)
  from capacity_invariant[OF h1 h2] h2 show ?thesis
    by (simp only: list_all_iff h1) blast
qed

text \<open>
  C2 (no duplicate seating).  When the users have pairwise distinct ids and no id is in
  the member lists of two existing tables, no id is in the member lists of two tables
  of the result of \<^verbatim>\<open>assignUsersToTables\<close>, with \<^verbatim>\<open>considerLocation\<close> false and true.
\<close>

theorem no_duplicate_seating:
  assumes "distinct (map user_id users)" and "noDoubleSeating existingTables"
  shows "noDoubleSeating (assignUsersToTables users \<lparr>maxPeoplePerTable = cap, considerLocation = False\<rparr> existingTables)
       \<and> noDoubleSeating (assignUsersToTables users \<lparr>maxPeoplePerTable = cap, considerLocation = True\<rparr> existingTables)"
  using assms by (simp add: noDoubleSeating_assign)

theorem no_duplicate_seating_witness:
  "distinct (map user_id [userWithId ''a'', userWithId ''b'', userWithId ''c'', userWithoutId])
   \<and> noDoubleSeating [tableOf ''table-1'' [''b'', ''z'']]
   \<and> noDoubleSeating (assignUsersToTables [userWithId ''a'', userWithId ''b'', userWithId ''c'', userWithoutId]
         \<lparr>maxPeoplePerTable = 2, considerLocation = False\<rparr> [tableOf ''table-1'' [''b'', ''z'']])
   \<and> noDoubleSeating (assignUsersToTables [userWithId ''a'', userWithId ''b'', userWithId ''c'', userWithoutId]
         \<lparr>maxPeoplePerTable = 2, considerLocation = True\<rparr> [tableOf ''table-1'' [''b'', ''z'']])"
proof -
  have h1: "distinct (map user_id [userWithId ''a'', userWithId ''b'', userWithId ''c'', userWithoutId])"
    by (simp add: userWithId_def userWithoutId_def)
  have h2: "noDoubleSeating [tableOf ''table-1'' [''b'', ''z'']]"
    by (simp add: noDoubleSeating_def)
  from no_duplicate_seating[OF h1 h2, of 2] h1 h2 show ?thesis by simp
qed


text \<open>
  C4 (move correctness).  Let the reference \<open>tablesRef\<close> denote the table list \<open>tbls\<close> in
  the store.  \<^verbatim>\<open>moveUserBetweenTables\<close> returns, and the list it returns denotes the result
  of the move on values.  On success \<open>fi\<close> and \<open>ti\<close> are the first tables of ids \<open>A\<close> and
  \<open>B\<close>, the latter below capacity, and \<open>ui\<close> is the first member of \<open>fi\<close> with the id of
  the user.  The members of \<open>fi\<close> are then the former ones without the one at \<open>ui\<close>
  (those before it, then those after it), the members of \<open>ti\<close> are the former ones
  followed by that snapshot (when \<open>A\<close> and \<open>B\<close> are one table, the snapshot goes to its
  end), and every other table is as it was.  In every case the list keeps its length,
  ids and names, so no table is deleted, and the members of all tables together are the
  same multiset.  On each of the three failures, told apart by the message, the result
  is \<open>tbls\<close>.  The list is a copy: the returned array, its table objects and their
  members arrays are cells allocated by the call, and every cell of the caller's store,
  so the input list, is unchanged.
\<close>

theorem move_correct:
  assumes "readTables h tablesRef = Some tbls"
  shows "\<exists>h' res.
       moveUserBetweenTables_heap h tablesRef u A B cap = Some (h', res)
     \<and> readTables h' (h_tables res) = Some (tables (moveUserBetweenTables tbls u A B cap))
     \<and> h_success res = success (moveUserBetweenTables tbls u A B cap)
     \<and> h_message res = message (moveUserBetweenTables tbls u A B cap)
     \<and> take (length h) h' = h
     \<and> readTables h' tablesRef = Some tbls
     \<and> length h \<le> h_tables res \<and> h_tables res \<noteq> tablesRef
     \<and> (\<exists>rs'. tableArrayAt h' (h_tables res) = Some rs'
           \<and> (\<forall>r\<in>set rs'. length h \<le> r
                 \<and> (\<exists>tid nm mref. tableObjectAt h' r = Some (tid, nm, mref) \<and> length h \<le> mref)))
     \<and> (\<not> success (moveUserBetweenTables tbls u A B cap) \<longrightarrow>
           tables (moveUserBetweenTables tbls u A B cap) = tbls)
     \<and> (success (moveUserBetweenTables tbls u A B cap) \<longrightarrow>
           (\<exists>fi ti ui.
               fi < length tbls \<and> table_id (tbls ! fi) = A \<and> (\<forall>j<fi. table_id (tbls ! j) \<noteq> A)
             \<and> ti < length tbls \<and> table_id (tbls ! ti) = B \<and> (\<forall>j<ti. table_id (tbls ! j) \<noteq> B)
             \<and> ui < length (members (tbls ! fi)) \<and> member_id (members (tbls ! fi) ! ui) = u
             \<and> (\<forall>j<ui. member_id (members (tbls ! fi) ! j) \<noteq> u)
             \<and> int (length (members (tbls ! ti))) < cap
             \<and> (\<forall>k<length tbls. k \<noteq> fi \<and> k \<noteq> ti \<longrightarrow>
                   tables (moveUserBetweenTables tbls u A B cap) ! k = tbls ! k)
             \<and> (fi \<noteq> ti \<longrightarrow>
                   members (tables (moveUserBetweenTables tbls u A B cap) ! fi)
                     = take ui (members (tbls ! fi)) @ drop (Suc ui) (members (tbls ! fi))
                 \<and> members (tables (moveUserBetweenTables tbls u A B cap) ! ti)
                     = members (tbls ! ti) @ [members (tbls ! fi) ! ui])
             \<and> (fi = ti \<longrightarrow>
                   members (tables (moveUserBetweenTables tbls u A B cap) ! fi)
                     = take ui (members (tbls ! fi)) @ drop (Suc ui) (members (tbls ! fi))
                         @ [members (tbls ! fi) ! ui])))
     \<and> length (tables (moveUserBetweenTables tbls u A B cap)) = length tbls
     \<and> map table_id (tables (moveUserBetweenTables tbls u A B cap)) = map table_id tbls
     \<and> map table_name (tables (moveUserBetweenTables tbls u A B cap)) = map table_name tbls
     \<and> mset (allMembers (tables (moveUserBetweenTables tbls u A B cap))) = mset (allMembers tbls)
     \<and> message (moveUserBetweenTables tbls u A B cap) =
         (case (find (\<lambda>t. table_id t = A) tbls, find (\<lambda>t. table_id t = B) tbls) of
            (Some a, Some b) \<Rightarrow>
              if cap \<le> int (length (members b)) then ''Destination table is full''
              else if u \<notin> member_id ` set (members a) then ''User not found in source table''
              else ''User moved successfully''
          | _ \<Rightarrow> ''Table not found'')
     \<and> success (moveUserBetweenTables tbls u A B cap) =
         (message (moveUserBetweenTables tbls u A B cap) = ''User moved successfully'')"
proof -
  let ?m = "moveUserBetweenTables tbls u A B cap"
  let ?h' = "h @ copyCells (length h) (tables ?m) @ [TableArray (copyRefs (length h) tbls)]"
  let ?res = "\<lparr> h_success = success ?m, h_tables = length h + 2 * length tbls, h_message = message ?m \<rparr>"
  have len: "length (tables ?m) = length tbls" by (rule length_move)
  have refs: "copyRefs (length h) tbls = copyRefs (length h) (tables ?m)"
    using len by (intro copyRefs_cong) simp
  have run: "moveUserBetweenTables_heap h tablesRef u A B cap = Some (?h', ?res)"
    using assms by (rule move_heap_refines)
  have rd: "readTables ?h' (h_tables ?res) = Some (tables ?m)"
    using readTables_copied[of h "tables ?m"] by (simp add: refs[symmetric] len)
  have pre: "take (length h) ?h' = h" by simp
  have old: "readTables ?h' tablesRef = Some tbls"
    using assms by (rule readTables_append)
  have "tablesRef < length h"
    using assms by (auto simp: readTables_def tableArrayAt_def split: option.splits if_splits)
  then have fresh: "length h \<le> h_tables ?res \<and> h_tables ?res \<noteq> tablesRef" by simp
  have cells: "\<exists>rs'. tableArrayAt ?h' (h_tables ?res) = Some rs'
           \<and> (\<forall>r\<in>set rs'. length h \<le> r
                 \<and> (\<exists>tid nm mref. tableObjectAt ?h' r = Some (tid, nm, mref) \<and> length h \<le> mref))"
    using copied_fresh[OF len, of h] by (intro exI[of _ "copyRefs (length h) tbls"]) simp
  have fail: "\<not> success ?m \<longrightarrow> tables ?m = tbls" by (simp add: move_failure_unchanged)
  have succ: "success ?m \<longrightarrow>
           (\<exists>fi ti ui.
               fi < length tbls \<and> table_id (tbls ! fi) = A \<and> (\<forall>j<fi. table_id (tbls ! j) \<noteq> A)
             \<and> ti < length tbls \<and> table_id (tbls ! ti) = B \<and> (\<forall>j<ti. table_id (tbls ! j) \<noteq> B)
             \<and> ui < length (members (tbls ! fi)) \<and> member_id (members (tbls ! fi) ! ui) = u
             \<and> (\<forall>j<ui. member_id (members (tbls ! fi) ! j) \<noteq> u)
             \<and> int (length (members (tbls ! ti))) < cap
             \<and> (\<forall>k<length tbls. k \<noteq> fi \<and> k \<noteq> ti \<longrightarrow> tables ?m ! k = tbls ! k)
             \<and> (fi \<noteq> ti \<longrightarrow>
                   members (tables ?m ! fi)
                     = take ui (members (tbls ! fi)) @ drop (Suc ui) (members (tbls ! fi))
                 \<and> members (tables ?m ! ti)
                     = members (tbls ! ti) @ [members (tbls ! fi) ! ui])
             \<and> (fi = ti \<longrightarrow>
                   members (tables ?m ! fi)
                     = take ui (members (tbls ! fi)) @ drop (Suc ui) (members (tbls ! fi))
                         @ [members (tbls ! fi) ! ui]))"
    using move_success_explicit[of tbls u A B cap] by blast
  have ids: "map table_id (tables ?m) = map table_id tbls" by (rule move_keeps_tables)
  have names: "map table_name (tables ?m) = map table_name tbls" by (rule move_keeps_names)
  have ms: "mset (allMembers (tables ?m)) = mset (allMembers tbls)" by (rule mset_allMembers_move)
  note msg = move_message_find[of tbls u A B cap]
  have sm: "success ?m = (message ?m = ''User moved successfully'')"
    by (auto simp: moveUserBetweenTables_def Let_def split: option.splits if_splits)
  have "moveUserBetweenTables_heap h tablesRef u A B cap = Some (?h', ?res)
     \<and> readTables ?h' (h_tables ?res) = Some (tables ?m)
     \<and> h_success ?res = success ?m
     \<and> h_message ?res = message ?m
     \<and> take (length h) ?h' = h
     \<and> readTables ?h' tablesRef = Some tbls
     \<and> length h \<le> h_tables ?res \<and> h_tables ?res \<noteq> tablesRef
     \<and> (\<exists>rs'. tableArrayAt ?h' (h_tables ?res) = Some rs'
           \<and> (\<forall>r\<in>set rs'. length h \<le> r
                 \<and> (\<exists>tid nm mref. tableObjectAt ?h' r = Some (tid, nm, mref) \<and> length h \<le> mref)))"
    using run rd pre old fresh cells by simp
  with fail succ len ids names ms msg sm show ?thesis by blast
qed

theorem move_correct_witness:
  "readTables exampleHeap 4
     = Some [tableOf ''t1'' [''u1'', ''u2'', ''u3''], tableOf ''t2'' [''u4'']]
   \<and> (\<exists>h' res. moveUserBetweenTables_heap exampleHeap 4 (Some ''u2'') ''t1'' ''t2'' 5 = Some (h', res)
        \<and> readTables h' (h_tables res)
            = Some [tableOf ''t1'' [''u1'', ''u3''], tableOf ''t2'' [''u4'', ''u2'']]
        \<and> h_success res
        \<and> take (length exampleHeap) h' = exampleHeap
        \<and> readTables h' 4 = Some [tableOf ''t1'' [''u1'', ''u2'', ''u3''], tableOf ''t2'' [''u4'']]
        \<and> h_tables res \<noteq> 4)
   \<and> (\<exists>h' res. moveUserBetweenTables_heap exampleHeap 4 (Some ''u2'') ''t1'' ''t2'' 1 = Some (h', res)
        \<and> readTables h' (h_tables res)
            = Some [tableOf ''t1'' [''u1'', ''u2'', ''u3''], tableOf ''t2'' [''u4'']]
        \<and> \<not> h_success res
        \<and> h_message res = ''Destination table is full''
        \<and> take (length exampleHeap) h' = exampleHeap
        \<and> h_tables res \<noteq> 4)"
proof -
  let ?tbls = "[tableOf ''t1'' [''u1'', ''u2'', ''u3''], tableOf ''t2'' [''u4'']]"
  have h: "readTables exampleHeap 4 = Some ?tbls"
    by code_simp
  have p1: "tables (moveUserBetweenTables ?tbls (Some ''u2'') ''t1'' ''t2'' 5)
              = [tableOf ''t1'' [''u1'', ''u3''], tableOf ''t2'' [''u4'', ''u2'']]"
    by code_simp
  have p2: "success (moveUserBetweenTables ?tbls (Some ''u2'') ''t1'' ''t2'' 5) = True"
    by code_simp
  have "\<exists>h' res. moveUserBetweenTables_heap exampleHeap 4 (Some ''u2'') ''t1'' ''t2'' 5 = Some (h', res)
        \<and> readTables h' (h_tables res) = Some (tables (moveUserBetweenTables ?tbls (Some ''u2'') ''t1'' ''t2'' 5))
        \<and> h_success res = success (moveUserBetweenTables ?tbls (Some ''u2'') ''t1'' ''t2'' 5)
        \<and> take (length exampleHeap) h' = exampleHeap
        \<and> readTables h' 4 = Some ?tbls
        \<and> h_tables res \<noteq> 4"
    using move_correct[OF h, of "Some ''u2''" "''t1''" "''t2''" 5]
    apply (elim exE conjE)
    apply (intro exI conjI)
         apply assumption+
    done
  then have ok: "\<exists>h' res. moveUserBetweenTables_heap exampleHeap 4 (Some ''u2'') ''t1'' ''t2'' 5 = Some (h', res)
        \<and> readTables h' (h_tables res) = Some [tableOf ''t1'' [''u1'', ''u3''], tableOf ''t2'' [''u4'', ''u2'']]
        \<and> h_success res
        \<and> take (length exampleHeap) h' = exampleHeap
        \<and> readTables h' 4 = Some ?tbls
        \<and> h_tables res \<noteq> 4"
    unfolding p1 p2 by simp
  have q1: "tables (moveUserBetweenTables ?tbls (Some ''u2'') ''t1'' ''t2'' 1) = ?tbls"
    by code_simp
  have q2: "success (moveUserBetweenTables ?tbls (Some ''u2'') ''t1'' ''t2'' 1) = False"
    by code_simp
  have q3: "message (moveUserBetweenTables ?tbls (Some ''u2'') ''t1'' ''t2'' 1) = ''Destination table is full''"
    by code_simp
  have "\<exists>h' res. moveUserBetweenTables_heap exampleHeap 4 (Some ''u2'') ''t1'' ''t2'' 1 = Some (h', res)
        \<and> readTables h' (h_tables res) = Some (tables (moveUserBetweenTables ?tbls (Some ''u2'') ''t1'' ''t2'' 1))
        \<and> h_success res = success (moveUserBetweenTables ?tbls (Some ''u2'') ''t1'' ''t2'' 1)
        \<and> h_message res = message (moveUserBetweenTables ?tbls (Some ''u2'') ''t1'' ''t2'' 1)
        \<and> take (length exampleHeap) h' = exampleHeap
        \<and> h_tables res \<noteq> 4"
    using move_correct[OF h, of "Some ''u2''" "''t1''" "''t2''" 1]
    apply (elim exE conjE)
    apply (intro exI conjI)
         apply assumption+
    done
  then have full: "\<exists>h' res. moveUserBetweenTables_heap exampleHeap 4 (Some ''u2'') ''t1'' ''t2'' 1 = Some (h', res)
        \<and> readTables h' (h_tables res) = Some ?tbls
        \<and> \<not> h_success res
        \<and> h_message res = ''Destination table is full''
        \<and> take (length exampleHeap) h' = exampleHeap
        \<and> h_tables res \<noteq> 4"
    unfolding q1 q2 q3 by simp
  from h ok full show ?thesis by (intro conjI)
qed

text \<open>
  C5 (shuffle is a permutation, re-chunked).  For a capacity of at least 1 (the data
  model bounds it by 2), whatever the tables and the random draws, \<^verbatim>\<open>shuffleTables\<close>
  returns; the member ids of its result are, as a multiset, those of its input; its
  tables are numbered from 1 and hold, in order, consecutive pieces of \<open>cap\<close> members of
  the shuffled sequence: each table but the last has exactly \<open>cap\<close> members, and the
  last has between 1 and \<open>cap\<close>.  One table of 6 members with capacity 5 gives two
  tables, of 5 members and of 1.
\<close>

theorem shuffle_is_permutation_rechunked:
  assumes "1 \<le> cap"
  shows "\<exists>newTables. shuffleTables rnd tbls cap = Some newTables
     \<and> mset (map member_id (allMembers newTables)) = mset (map member_id (allMembers tbls))
     \<and> length (allMembers newTables) = length (allMembers tbls)
     \<and> allMembers newTables = shuffleUsers rnd tbls
     \<and> (\<forall>k<length newTables.
           newTables ! k = newTable (k + 1) (take (nat cap) (drop (k * nat cap) (shuffleUsers rnd tbls))))
     \<and> (\<forall>k. Suc k < length newTables \<longrightarrow> int (length (members (newTables ! k))) = cap)
     \<and> (\<forall>t\<in>set newTables. 1 \<le> length (members t) \<and> int (length (members t)) \<le> cap)
     \<and> (\<forall>ms nm. length ms = 6 \<longrightarrow>
           map_option (map (length \<circ> members))
             (shuffleTables rnd [\<lparr>table_id = ''t1'', table_name = nm, members = ms\<rparr>] 5) = Some [5, 1])"
proof -
  let ?xs = "shuffleUsers rnd tbls"
  let ?c = "nat cap"
  let ?nt = "numberTables 0 (chunks ?c ?xs)"
  have c: "0 < ?c" "int ?c = cap" using assms by auto
  have res: "shuffleTables rnd tbls cap = Some ?nt" using assms by (rule shuffle_result)
  have all: "allMembers ?nt = ?xs" by (simp add: allMembers_numberTables concat_chunks[OF c(1)])
  have m: "mset (map member_id (allMembers ?nt)) = mset (map member_id (allMembers tbls))"
    unfolding all using mset_shuffleUsers[of rnd tbls] by (metis mset_map)
  have l: "length (allMembers ?nt) = length (allMembers tbls)"
    unfolding all by (rule length_shuffleUsers)
  have idx: "\<forall>k<length ?nt. ?nt ! k = newTable (k + 1) (take ?c (drop (k * ?c) ?xs))"
    by (simp add: numberTables_nth chunks_nth[OF c(1)])
  have full: "\<forall>k. Suc k < length ?nt \<longrightarrow> int (length (members (?nt ! k))) = cap"
  proof (intro allI impI)
    fix k assume k: "Suc k < length ?nt"
    then have "length (chunks ?c ?xs ! k) = ?c" using chunks_full[OF c(1)] by simp
    moreover have "members (?nt ! k) = chunks ?c ?xs ! k"
      using k by (simp add: numberTables_nth newTable_def)
    ultimately show "int (length (members (?nt ! k))) = cap" using c(2) by simp
  qed
  have sizes: "\<forall>t\<in>set ?nt. 1 \<le> length (members t) \<and> int (length (members t)) \<le> cap"
  proof
    fix t assume "t \<in> set ?nt"
    then have "members t \<in> set (map members ?nt)" by simp
    then have "members t \<in> set (chunks ?c ?xs)" by (simp only: members_numberTables)
    from chunks_sizes[OF c(1) this] c(2) show "1 \<le> length (members t) \<and> int (length (members t)) \<le> cap"
      by linarith
  qed
  have ex: "\<forall>ms nm. length ms = 6 \<longrightarrow>
           map_option (map (length \<circ> members))
             (shuffleTables rnd [\<lparr>table_id = ''t1'', table_name = nm, members = ms\<rparr>] 5) = Some [5, 1]"
  proof (intro allI impI)
    fix ms :: "member list" and nm :: string
    assume six: "length ms = 6"
    let ?t = "[\<lparr>table_id = ''t1'', table_name = nm, members = ms\<rparr>]"
    have "length (shuffleUsers rnd ?t) = 6" using six by (simp add: length_shuffleUsers)
    then have "map length (chunks 5 (shuffleUsers rnd ?t)) = [5, 1]" by (rule chunks_six_by_five)
    moreover have "shuffleTables rnd ?t 5 = Some (numberTables 0 (chunks 5 (shuffleUsers rnd ?t)))"
      using shuffle_result[of 5 rnd ?t] by simp
    moreover have "map (length \<circ> members) (numberTables 0 (chunks 5 (shuffleUsers rnd ?t)))
        = map length (chunks 5 (shuffleUsers rnd ?t))"
      using members_numberTables[of 0 "chunks 5 (shuffleUsers rnd ?t)"]
      by (metis map_map)
    ultimately show "map_option (map (length \<circ> members)) (shuffleTables rnd ?t 5) = Some [5, 1]"
      by simp
  qed
  from res m l all idx full sizes ex show ?thesis by blast
qed

theorem shuffle_is_permutation_rechunked_witness:
  "(1::int) \<le> 2
   \<and> shuffleTables (\<lambda>k. 1 / 3) [tableOf ''t1'' [''a'', ''b''], tableOf ''t2'' [''c'']] 2
       = Some [newTable 1 [memberWithId ''c'', memberWithId ''a''], newTable 2 [memberWithId ''b'']]
   \<and> (\<exists>newTables. shuffleTables (\<lambda>k. 1 / 3) [tableOf ''t1'' [''a'', ''b''], tableOf ''t2'' [''c'']] 2 = Some newTables
        \<and> mset (map member_id (allMembers newTables))
            = mset (map member_id (allMembers [tableOf ''t1'' [''a'', ''b''], tableOf ''t2'' [''c'']])))"
proof -
  have h: "(1::int) \<le> 2" by simp
  have e: "shuffleTables (\<lambda>k. 1 / 3) [tableOf ''t1'' [''a'', ''b''], tableOf ''t2'' [''c'']] 2
       = Some [newTable 1 [memberWithId ''c'', memberWithId ''a''], newTable 2 [memberWithId ''b'']]"
    by code_simp
  from shuffle_is_permutation_rechunked[OF h, of "\<lambda>k. 1 / 3" "[tableOf ''t1'' [''a'', ''b''], tableOf ''t2'' [''c'']]"]
  have "\<exists>newTables. shuffleTables (\<lambda>k. 1 / 3) [tableOf ''t1'' [''a'', ''b''], tableOf ''t2'' [''c'']] 2 = Some newTables
        \<and> mset (map member_id (allMembers newTables))
            = mset (map member_id (allMembers [tableOf ''t1'' [''a'', ''b''], tableOf ''t2'' [''c'']]))"
    by blast
  with h e show ?thesis by blast
qed

text \<open>
  C6 (idempotent re-filter).  Calling \<^verbatim>\<open>assignUsersToTables\<close> again on its own result,
  with the same users and settings, returns that result unchanged, with
  \<^verbatim>\<open>considerLocation\<close> false and true.
\<close>

theorem assign_twice_is_assign_once:
  "assignUsersToTables users \<lparr>maxPeoplePerTable = cap, considerLocation = False\<rparr>
       (assignUsersToTables users \<lparr>maxPeoplePerTable = cap, considerLocation = False\<rparr> existingTables)
     = assignUsersToTables users \<lparr>maxPeoplePerTable = cap, considerLocation = False\<rparr> existingTables
   \<and> assignUsersToTables users \<lparr>maxPeoplePerTable = cap, considerLocation = True\<rparr>
       (assignUsersToTables users \<lparr>maxPeoplePerTable = cap, considerLocation = True\<rparr> existingTables)
     = assignUsersToTables users \<lparr>maxPeoplePerTable = cap, considerLocation = True\<rparr> existingTables"
  by (simp only: assign_idempotent)

text \<open>
  C7 (statistics), the degenerate case.  With no user, \<^verbatim>\<open>getTableDistributionStats\<close>
  divides by \<^verbatim>\<open>minTables = 0\<close> without a guard: \<^verbatim>\<open>totalTables\<close> is 0 and the three
  other fields are \<^verbatim>\<open>NaN\<close>.  (For at least one user, \<open>stats_positive\<close> gives the
  consistency equation and the ceiling.)
\<close>

theorem stats_zero_users_unguarded:
  "getTableDistributionStats 0 5 =
     \<lparr> totalTables = Fin 0, averagePeoplePerTable = NaN,
       tablesWithExtraPerson = NaN, tablesWithNormalCount = NaN \<rparr>"
  by (simp add: getTableDistributionStats_def)

text \<open>
  C8 (malformed ids), as the claim states it: \<^verbatim>\<open>assignUsersToTables\<close> does not skip
  a user whose id is missing or empty.  Called with such users and no table, it seats
  both.
\<close>

theorem malformed_id_is_seated:
  "map member_id (allMembers (assignUsersToTables [userWithoutId, userWithId []]
        \<lparr>maxPeoplePerTable = 5, considerLocation = False\<rparr> [])) = [None, Some []]"
  by code_simp

text \<open>
  C8, amended.  \<^verbatim>\<open>assignUsersToTables\<close> gives a member snapshot to every user whose
  id is not yet seated, whatever that id is: the members of its result are those of the
  existing tables and one snapshot for each unassigned user.  The callers drop the
  users with a missing or empty id before the call (\<^verbatim>\<open>users.filter(user => user.id)\<close>);
  on such a list every member of the result has a non-empty id or was already a member
  of an existing table.
\<close>

theorem assign_seats_every_unseated_user:
  "mset (allMembers (assignUsersToTables users s existingTables))
     = mset (allMembers existingTables) + mset (map snapshot (unassignedUsers users existingTables))
   \<and> (\<forall>m\<in>set (allMembers (assignUsersToTables (filter (\<lambda>u. truthy (user_id u)) users) s existingTables)).
         truthy (member_id m) \<or> m \<in> set (allMembers existingTables))"
proof
  show "mset (allMembers (assignUsersToTables users s existingTables))
     = mset (allMembers existingTables) + mset (map snapshot (unassignedUsers users existingTables))"
    by (rule mset_allMembers_assign)
  let ?valid = "filter (\<lambda>u. truthy (user_id u)) users"
  show "\<forall>m\<in>set (allMembers (assignUsersToTables ?valid s existingTables)).
         truthy (member_id m) \<or> m \<in> set (allMembers existingTables)"
  proof
    fix m assume "m \<in> set (allMembers (assignUsersToTables ?valid s existingTables))"
    moreover have "set (allMembers (assignUsersToTables ?valid s existingTables))
        = set (allMembers existingTables) \<union> snapshot ` set (unassignedUsers ?valid existingTables)"
      using arg_cong[OF mset_allMembers_assign[of ?valid s existingTables], of set_mset] by simp
    ultimately have "m \<in> set (allMembers existingTables) \<or> m \<in> snapshot ` set (unassignedUsers ?valid existingTables)"
      by blast
    then show "truthy (member_id m) \<or> m \<in> set (allMembers existingTables)"
      by (auto simp: unassignedUsers_def snapshot_def)
  qed
qed

theorem assign_seats_every_unseated_user_witness:
  "list_all (\<lambda>m. truthy (member_id m) \<or> m \<in> set (allMembers [tableOf ''table-1'' ['''']]))
     (allMembers (assignUsersToTables (filter (\<lambda>u. truthy (user_id u)) [userWithoutId, userWithId ''a'', userWithId []])
        \<lparr>maxPeoplePerTable = 5, considerLocation = False\<rparr> [tableOf ''table-1'' ['''']]))
   \<and> map member_id (allMembers (assignUsersToTables (filter (\<lambda>u. truthy (user_id u)) [userWithoutId, userWithId ''a'', userWithId []])
        \<lparr>maxPeoplePerTable = 5, considerLocation = False\<rparr> [tableOf ''table-1'' ['''']])) = [Some [], Some ''a'']"
proof
  show "list_all (\<lambda>m. truthy (member_id m) \<or> m \<in> set (allMembers [tableOf ''table-1'' ['''']]))
     (allMembers (assignUsersToTables (filter (\<lambda>u. truthy (user_id u)) [userWithoutId, userWithId ''a'', userWithId []])
        \<lparr>maxPeoplePerTable = 5, considerLocation = False\<rparr> [tableOf ''table-1'' ['''']]))"
    using assign_seats_every_unseated_user[of "[userWithoutId, userWithId ''a'', userWithId []]"
        "\<lparr>maxPeoplePerTable = 5, considerLocation = False\<rparr>" "[tableOf ''table-1'' ['''']]", THEN conjunct2]
    by (simp only: list_all_iff)
  show "map member_id (allMembers (assignUsersToTables (filter (\<lambda>u. truthy (user_id u)) [userWithoutId, userWithId ''a'', userWithId []])
        \<lparr>maxPeoplePerTable = 5, considerLocation = False\<rparr> [tableOf ''table-1'' ['''']])) = [Some [], Some ''a'']"
    by code_simp
qed

text \<open>
  C9 (table ids), at two inputs with pairwise distinct existing ids.  With
  \<^verbatim>\<open>considerLocation\<close> true and two users in different location buckets, each bucket
  numbers its tables from 1 and the result has two tables with the id \<^verbatim>\<open>table-1\<close>.
  With \<^verbatim>\<open>considerLocation\<close> false and the one existing table \<^verbatim>\<open>table-2\<close> full, the
  new table is the second of the list and gets the id \<^verbatim>\<open>table-2\<close> as well.
\<close>

theorem table_ids_collide:
  "map table_id
     (assignUsersToTables [userAt ''a'' (3004 / 100) (3124 / 100), userAt ''b'' (3120 / 100) (2992 / 100)]
        \<lparr>maxPeoplePerTable = 5, considerLocation = True\<rparr> []) = [''table-1'', ''table-1'']
   \<and> map table_id
     (assignUsersToTables [userWithId ''a'']
        \<lparr>maxPeoplePerTable = 1, considerLocation = False\<rparr> [tableOf ''table-2'' [''b'']])
      = [''table-2'', ''table-2'']"
  by (simp add: eval_assign)

text \<open>
  C10 (session-exit hook).  \<^verbatim>\<open>removeUserFromTable\<close> never throws.  When the user is in
  no table it does nothing.  Otherwise, for the first table that has the user among its
  members, with \<open>remaining\<close> the members of other ids, it makes exactly one call: it
  deletes the table document when \<open>remaining\<close> is empty, and writes the table back with
  \<open>remaining\<close> as its members when not; the collection changes accordingly unless the
  call fails, and the failure is swallowed.  \<^verbatim>\<open>logout\<close> then calls \<^verbatim>\<open>signOut\<close> in every
  case, and fails only when \<^verbatim>\<open>signOut\<close> does.
\<close>

theorem session_exit_cleanup:
  "fst (removeUserFromTable sv tbls userId w) = None
   \<and> (userId \<notin> assignedUserIds tbls \<longrightarrow> snd (removeUserFromTable sv tbls userId w) = w)
   \<and> (\<forall>i remaining.
         i < length tbls \<and> userId \<in> memberIds (tbls ! i) \<and> (\<forall>j<i. userId \<notin> memberIds (tbls ! j))
         \<and> remaining = filter (\<lambda>m. member_id m \<noteq> userId) (members (tbls ! i))
       \<longrightarrow> calls (snd (removeUserFromTable sv tbls userId w))
             = calls w @ [if remaining = [] then DeleteDoc (table_id (tbls ! i))
                          else SetDoc (table_id (tbls ! i)) ((tbls ! i)\<lparr>members := remaining\<rparr>)]
         \<and> docs (snd (removeUserFromTable sv tbls userId w))
             = (if remaining = []
                then (if deleteDocFails sv (table_id (tbls ! i)) then docs w
                      else (docs w)(table_id (tbls ! i) := None))
                else (if setDocFails sv (table_id (tbls ! i)) ((tbls ! i)\<lparr>members := remaining\<rparr>) then docs w
                      else (docs w)(table_id (tbls ! i) \<mapsto> (tbls ! i)\<lparr>members := remaining\<rparr>)))
         \<and> signedIn (snd (removeUserFromTable sv tbls userId w)) = signedIn w)
   \<and> calls (snd (logout sv tbls (Some uid) w))
       = calls (snd (removeUserFromTable sv tbls (Some uid) w)) @ [SignOut]
   \<and> fst (logout sv tbls (Some uid) w) = (if signOutFails sv then Some AuthFailure else None)
   \<and> signedIn (snd (logout sv tbls (Some uid) w)) = (signOutFails sv \<and> signedIn w)
   \<and> logout sv tbls None w = signOut sv w"
proof (intro conjI)
  let ?P = "\<lambda>t. \<exists>m\<in>set (members t). member_id m = userId"
  show nothrow: "fst (removeUserFromTable sv tbls userId w) = None"
    by (simp add: removeUserFromTable_def Let_def)
  show "userId \<notin> assignedUserIds tbls \<longrightarrow> snd (removeUserFromTable sv tbls userId w) = w"
  proof
    assume "userId \<notin> assignedUserIds tbls"
    then have "find ?P tbls = None"
      by (auto simp: find_None_iff assignedUserIds_Union memberIds_def)
    then show "snd (removeUserFromTable sv tbls userId w) = w"
      by (simp add: removeUserFromTable_def)
  qed
  show "\<forall>i remaining.
         i < length tbls \<and> userId \<in> memberIds (tbls ! i) \<and> (\<forall>j<i. userId \<notin> memberIds (tbls ! j))
         \<and> remaining = filter (\<lambda>m. member_id m \<noteq> userId) (members (tbls ! i))
       \<longrightarrow> calls (snd (removeUserFromTable sv tbls userId w))
             = calls w @ [if remaining = [] then DeleteDoc (table_id (tbls ! i))
                          else SetDoc (table_id (tbls ! i)) ((tbls ! i)\<lparr>members := remaining\<rparr>)]
         \<and> docs (snd (removeUserFromTable sv tbls userId w))
             = (if remaining = []
                then (if deleteDocFails sv (table_id (tbls ! i)) then docs w
                      else (docs w)(table_id (tbls ! i) := None))
                else (if setDocFails sv (table_id (tbls ! i)) ((tbls ! i)\<lparr>members := remaining\<rparr>) then docs w
                      else (docs w)(table_id (tbls ! i) \<mapsto> (tbls ! i)\<lparr>members := remaining\<rparr>)))
         \<and> signedIn (snd (removeUserFromTable sv tbls userId w)) = signedIn w"
  proof (intro allI impI)
    fix i remaining
    assume a: "i < length tbls \<and> userId \<in> memberIds (tbls ! i) \<and> (\<forall>j<i. userId \<notin> memberIds (tbls ! j))
         \<and> remaining = filter (\<lambda>m. member_id m \<noteq> userId) (members (tbls ! i))"
    have "find ?P tbls = Some (tbls ! i)"
    proof (rule find_first)
      show "i < length tbls" using a by simp
      show "?P (tbls ! i)" using a by (auto simp: memberIds_def)
      show "\<forall>j<i. \<not> ?P (tbls ! j)"
      proof (intro allI impI)
        fix j assume "j < i"
        with a have "userId \<notin> member_id ` set (members (tbls ! j))" by (simp add: memberIds_def)
        then show "\<not> ?P (tbls ! j)" by force
      qed
    qed
    then show "calls (snd (removeUserFromTable sv tbls userId w))
             = calls w @ [if remaining = [] then DeleteDoc (table_id (tbls ! i))
                          else SetDoc (table_id (tbls ! i)) ((tbls ! i)\<lparr>members := remaining\<rparr>)]
         \<and> docs (snd (removeUserFromTable sv tbls userId w))
             = (if remaining = []
                then (if deleteDocFails sv (table_id (tbls ! i)) then docs w
                      else (docs w)(table_id (tbls ! i) := None))
                else (if setDocFails sv (table_id (tbls ! i)) ((tbls ! i)\<lparr>members := remaining\<rparr>) then docs w
                      else (docs w)(table_id (tbls ! i) \<mapsto> (tbls ! i)\<lparr>members := remaining\<rparr>)))
         \<and> signedIn (snd (removeUserFromTable sv tbls userId w)) = signedIn w"
      using a by (simp add: removeUserFromTable_def Let_def deleteDoc_def setDoc_def)
  qed
  have lg: "logout sv tbls (Some uid) w = signOut sv (snd (removeUserFromTable sv tbls (Some uid) w))"
    by (simp add: logout_def Let_def removeUserFromTable_def)
  show "calls (snd (logout sv tbls (Some uid) w))
       = calls (snd (removeUserFromTable sv tbls (Some uid) w)) @ [SignOut]"
    unfolding lg by (simp add: signOut_def)
  show "fst (logout sv tbls (Some uid) w) = (if signOutFails sv then Some AuthFailure else None)"
    unfolding lg by (simp add: signOut_def)
  have si: "signedIn (snd (removeUserFromTable sv tbls (Some uid) w)) = signedIn w"
    by (simp add: removeUserFromTable_def Let_def deleteDoc_def setDoc_def split: option.splits)
  show "signedIn (snd (logout sv tbls (Some uid) w)) = (signOutFails sv \<and> signedIn w)"
    unfolding lg using si by (simp add: signOut_def)
  show "logout sv tbls None w = signOut sv w"
    by (simp add: logout_def)
qed

theorem session_exit_cleanup_witness:
  "fst (removeUserFromTable \<lparr>deleteDocFails = (\<lambda>tid. True), setDocFails = (\<lambda>tid t. False), signOutFails = False\<rparr>
          [tableOf ''table-1'' [''a''], tableOf ''table-2'' [''b'', ''c'']] (Some ''b'')
          \<lparr>docs = Map.empty, signedIn = True, calls = []\<rparr>) = None
   \<and> calls (snd (removeUserFromTable \<lparr>deleteDocFails = (\<lambda>tid. True), setDocFails = (\<lambda>tid t. False), signOutFails = False\<rparr>
          [tableOf ''table-1'' [''a''], tableOf ''table-2'' [''b'', ''c'']] (Some ''b'')
          \<lparr>docs = Map.empty, signedIn = True, calls = []\<rparr>))
       = [SetDoc ''table-2'' (tableOf ''table-2'' [''c''])]
   \<and> calls (snd (logout \<lparr>deleteDocFails = (\<lambda>tid. True), setDocFails = (\<lambda>tid t. False), signOutFails = False\<rparr>
          [tableOf ''table-1'' [''a''], tableOf ''table-2'' [''b'', ''c'']] (Some ''b'')
          \<lparr>docs = Map.empty, signedIn = True, calls = []\<rparr>))
       = [SetDoc ''table-2'' (tableOf ''table-2'' [''c'']), SignOut]
   \<and> fst (removeUserFromTable \<lparr>deleteDocFails = (\<lambda>tid. True), setDocFails = (\<lambda>tid t. False), signOutFails = False\<rparr>
          [tableOf ''table-1'' [''a''], tableOf ''table-2'' [''b'', ''c'']] (Some ''a'')
          \<lparr>docs = Map.empty, signedIn = True, calls = []\<rparr>) = None
   \<and> calls (snd (logout \<lparr>deleteDocFails = (\<lambda>tid. True), setDocFails = (\<lambda>tid t. False), signOutFails = False\<rparr>
          [tableOf ''table-1'' [''a''], tableOf ''table-2'' [''b'', ''c'']] (Some ''a'')
          \<lparr>docs = Map.empty, signedIn = True, calls = []\<rparr>))
       = [DeleteDoc ''table-1'', SignOut]
   \<and> fst (logout \<lparr>deleteDocFails = (\<lambda>tid. True), setDocFails = (\<lambda>tid t. False), signOutFails = False\<rparr>
          [tableOf ''table-1'' [''a''], tableOf ''table-2'' [''b'', ''c'']] (Some ''a'')
          \<lparr>docs = Map.empty, signedIn = True, calls = []\<rparr>) = None"
proof -
  let ?sv = "\<lparr>deleteDocFails = (\<lambda>tid. True), setDocFails = (\<lambda>tid t. False), signOutFails = False\<rparr>"
  let ?tbls = "[tableOf ''table-1'' [''a''], tableOf ''table-2'' [''b'', ''c'']]"
  let ?w = "\<lparr>docs = Map.empty, signedIn = True, calls = []\<rparr>"
  have hyp: "(1::nat) < length ?tbls \<and> Some ''b'' \<in> memberIds (?tbls ! 1)
      \<and> (\<forall>j<1. Some ''b'' \<notin> memberIds (?tbls ! j))
      \<and> [memberWithId ''c''] = filter (\<lambda>m. member_id m \<noteq> Some ''b'') (members (?tbls ! 1))"
    by (simp add: tableOf_def memberIds_def memberWithId_def)
  note inst = session_exit_cleanup[of ?sv ?tbls "Some ''b''" ?w "''b''"]
  from inst have never: "fst (removeUserFromTable ?sv ?tbls (Some ''b'') ?w) = None" by blast
  from inst hyp have "calls (snd (removeUserFromTable ?sv ?tbls (Some ''b'') ?w))
       = calls ?w @ [if [memberWithId ''c''] = [] then DeleteDoc (table_id (?tbls ! 1))
                          else SetDoc (table_id (?tbls ! 1)) ((?tbls ! 1)\<lparr>members := [memberWithId ''c'']\<rparr>)]"
    by blast
  then have c: "calls (snd (removeUserFromTable ?sv ?tbls (Some ''b'') ?w)) = [SetDoc ''table-2'' (tableOf ''table-2'' [''c''])]"
    by (simp add: tableOf_def)
  from inst have "calls (snd (logout ?sv ?tbls (Some ''b'') ?w))
       = calls (snd (removeUserFromTable ?sv ?tbls (Some ''b'') ?w)) @ [SignOut]" by blast
  with c have l: "calls (snd (logout ?sv ?tbls (Some ''b'') ?w)) = [SetDoc ''table-2'' (tableOf ''table-2'' [''c'']), SignOut]"
    by simp
  have hyp0: "(0::nat) < length ?tbls \<and> Some ''a'' \<in> memberIds (?tbls ! 0)
      \<and> (\<forall>j<0. Some ''a'' \<notin> memberIds (?tbls ! j))
      \<and> [] = filter (\<lambda>m. member_id m \<noteq> Some ''a'') (members (?tbls ! 0))"
    by (simp add: tableOf_def memberIds_def memberWithId_def)
  note inst0 = session_exit_cleanup[of ?sv ?tbls "Some ''a''" ?w "''a''"]
  from inst0 have never0: "fst (removeUserFromTable ?sv ?tbls (Some ''a'') ?w) = None" by blast
  from inst0 hyp0 have "calls (snd (removeUserFromTable ?sv ?tbls (Some ''a'') ?w))
       = calls ?w @ [if ([]::member list) = [] then DeleteDoc (table_id (?tbls ! 0))
                          else SetDoc (table_id (?tbls ! 0)) ((?tbls ! 0)\<lparr>members := []\<rparr>)]"
    by blast
  then have c0: "calls (snd (removeUserFromTable ?sv ?tbls (Some ''a'') ?w)) = [DeleteDoc ''table-1'']"
    by (simp add: tableOf_def)
  from inst0 have "calls (snd (logout ?sv ?tbls (Some ''a'') ?w))
       = calls (snd (removeUserFromTable ?sv ?tbls (Some ''a'') ?w)) @ [SignOut]" by blast
  with c0 have l0: "calls (snd (logout ?sv ?tbls (Some ''a'') ?w)) = [DeleteDoc ''table-1'', SignOut]"
    by simp
  from inst0 have "fst (logout ?sv ?tbls (Some ''a'') ?w) = (if signOutFails ?sv then Some AuthFailure else None)"
    by blast
  then have f0: "fst (logout ?sv ?tbls (Some ''a'') ?w) = None" by simp
  from never c l never0 l0 f0 show ?thesis by blast
qed

end
